theory Spec2Isabelle
  imports
    Complex_Main
    "HOL-Library.Word"
    "HOL-Library.Signed_Division"
    "HOL-Library.While_Combinator"
    "HOL-Library.Product_Lexorder"
begin

unbundle bit_operations_syntax

section \<open>Rational arithmetic core (ConstantEvaluator.cpp)\<close>

text \<open>
  \<open>bigint\<close> is boost's arbitrary-precision signed integer and \<open>rational\<close> is
  \<open>boost::rational<bigint>\<close>, a fraction kept in lowest terms with a positive
  denominator. HOL's \<open>int\<close> and \<open>rat\<close> are the same value types; \<open>quotient_of\<close>
  returns the normalised pair.
\<close>

type_synonym bigint = int
type_synonym rational = rat
type_synonym uint32 = "32 word"

definition numerator :: "rational \<Rightarrow> bigint" where
  "numerator r = fst (quotient_of r)"

definition denominator :: "rational \<Rightarrow> bigint" where
  "denominator r = snd (quotient_of r)"

text \<open>
  \<open>boost::multiprecision::msb\<close>: the index of the most significant set bit.
  The library function is defined on positive arguments only; every call in the
  sources passes a positive value (after \<open>solAssert(_base > 0)\<close>, or the
  absolute value of a non-zero numerator).
\<close>

fun msb_nat :: "nat \<Rightarrow> nat" where
  "msb_nat n = (if n \<le> 1 then 0 else Suc (msb_nat (n div 2)))"

declare msb_nat.simps [simp del]

definition msb :: "bigint \<Rightarrow> nat" where
  "msb b = msb_nat (nat b)"

text \<open>Failures that leave a function by an exception instead of a value.\<close>

datatype failure =
    InternalCompilerError   \<comment> \<open>a failed \<open>solAssert\<close>\<close>
  | FatalError              \<comment> \<open>thrown by a fatal report of the error reporter\<close>

definition bitsMax :: nat where
  "bitsMax = 4096"

definition uint32_max :: bigint where
  "uint32_max = 4294967295"

text \<open>\<open>fitsPrecisionExp\<close>: does \<open>_base ** _exp\<close> fit into 4096 bits?\<close>

definition fitsPrecisionExp :: "bigint \<Rightarrow> bigint \<Rightarrow> failure + bool" where
  "fitsPrecisionExp base e =
     (if base = 0 then Inr True
      else if \<not> base > 0 then Inl InternalCompilerError
      else
        let mostSignificantBaseBit = msb base in
        if mostSignificantBaseBit = 0 then Inr True
        else if mostSignificantBaseBit > bitsMax then Inr False
        else
          let bitsNeeded = e * (int mostSignificantBaseBit + 1) in
          Inr (bitsNeeded \<le> int bitsMax))"

text \<open>
  \<open>fitsPrecisionBase2\<close> forwards to \<open>fitsPrecisionBaseX(_mantissa, 1.0, _expBase2)\<close>.
  \<open>fitsPrecisionBaseX\<close> is declared outside the analysed sources, so it is a
  parameter here (mantissa, binary logarithm of the base, exponent).
\<close>

type_synonym precisionGuard = "bigint \<Rightarrow> real \<Rightarrow> uint32 \<Rightarrow> bool"

definition fitsPrecisionBase2 :: "precisionGuard \<Rightarrow> bigint \<Rightarrow> uint32 \<Rightarrow> bool" where
  "fitsPrecisionBase2 fitsPrecisionBaseX mantissa expBase2 = fitsPrecisionBaseX mantissa 1 expBase2"

text \<open>The operator tokens the evaluator distinguishes.\<close>

datatype Token =
    BitOr | BitXor | BitAnd
  | Add | Sub | Mul | Div | Mod | Exp
  | SHL | SAR | SHR
  | BitNot | Not
  | Equal | NotEqual | LessThan | GreaterThan | LessThanOrEqual | GreaterThanOrEqual

fun isCompareOp :: "Token \<Rightarrow> bool" where
  "isCompareOp Equal = True"
| "isCompareOp NotEqual = True"
| "isCompareOp LessThan = True"
| "isCompareOp GreaterThan = True"
| "isCompareOp LessThanOrEqual = True"
| "isCompareOp GreaterThanOrEqual = True"
| "isCompareOp _ = False"

text \<open>
  Modelled from the spec: \<open>makeRational\<close> is not part of the analysed sources.
  It builds the (normalised) fraction of the two integers it is given.
\<close>

definition makeRational :: "bigint \<Rightarrow> bigint \<Rightarrow> rational" where
  "makeRational n d = Fract n d"

text \<open>The local lambda \<open>optimizedPow\<close> of the exponentiation case.\<close>

definition optimizedPow :: "bigint \<Rightarrow> uint32 \<Rightarrow> bigint" where
  "optimizedPow base exponent =
     (if base = 1 then 1
      else if base = - 1 then 1 - 2 * uint (exponent AND 1)
      else base ^ unat exponent)"

text \<open>The body of \<open>case Token::Exp\<close>. C++ integer division truncates: \<open>sdiv\<close>.\<close>

definition evaluateExp :: "rational \<Rightarrow> rational \<Rightarrow> failure + rational option" where
  "evaluateExp left right =
     (if denominator right \<noteq> 1 then Inr None
      else
        let ex = numerator right in
        if ex = 0 then Inr (Some 1)
        else if left = 0 \<or> left = 1 then Inr (Some left)
        else if left = - 1 then
          (let isOdd = \<bar>ex\<bar> AND 1 in Inr (Some (of_int (1 - 2 * isOdd))))
        else if \<bar>ex\<bar> > uint32_max then Inr None
        else
          let absExp = (word_of_int \<bar>ex\<bar> :: uint32) in
          case fitsPrecisionExp \<bar>numerator left\<bar> (uint absExp) of
            Inl e \<Rightarrow> Inl e
          | Inr False \<Rightarrow> Inr None
          | Inr True \<Rightarrow>
              (case fitsPrecisionExp \<bar>denominator left\<bar> (uint absExp) of
                 Inl e \<Rightarrow> Inl e
               | Inr False \<Rightarrow> Inr None
               | Inr True \<Rightarrow>
                   let numerator' = optimizedPow (numerator left) absExp;
                       denominator' = optimizedPow (denominator left) absExp
                   in if ex \<ge> 0 then Inr (Some (makeRational numerator' denominator'))
                      else Inr (Some (makeRational denominator' numerator'))))"

text \<open>The body of \<open>case Token::SHL\<close>.\<close>

definition evaluateSHL ::
  "precisionGuard \<Rightarrow> bool \<Rightarrow> rational \<Rightarrow> rational \<Rightarrow> rational option" where
  "evaluateSHL fitsPrecisionBaseX fractional left right =
     (if fractional then None
      else if right < 0 then None
      else if right > of_int uint32_max then None
      else if numerator left = 0 then Some 0
      else
        let exponent = (word_of_int (numerator right) :: uint32) in
        if \<not> fitsPrecisionBase2 fitsPrecisionBaseX \<bar>numerator left\<bar> exponent then None
        else Some (of_int (numerator left * 2 ^ unat exponent)))"

text \<open>The body of \<open>case Token::SAR\<close>.\<close>

definition evaluateSAR :: "bool \<Rightarrow> rational \<Rightarrow> rational \<Rightarrow> rational option" where
  "evaluateSAR fractional left right =
     (if fractional then None
      else if right < 0 then None
      else if right > of_int uint32_max then None
      else if numerator left = 0 then Some 0
      else
        let exponent = (word_of_int (numerator right) :: uint32) in
        if unat exponent > msb \<bar>numerator left\<bar> then
          Some (if numerator left < 0 then - 1 else 0)
        else if numerator left < 0 then
          Some (Fract ((numerator left + 1) sdiv 2 ^ unat exponent - 1) 1)
        else
          Some (Fract (numerator left sdiv 2 ^ unat exponent) 1))"

text \<open>\<open>ConstantEvaluator::evaluateBinaryOperator\<close>.\<close>

definition evaluateBinaryOperator ::
  "precisionGuard \<Rightarrow> Token \<Rightarrow> rational \<Rightarrow> rational \<Rightarrow> failure + rational option" where
  "evaluateBinaryOperator fitsPrecisionBaseX operator left right =
     (let fractional = (denominator left \<noteq> 1 \<or> denominator right \<noteq> 1) in
      case operator of
        BitOr \<Rightarrow>
          if fractional then Inr None
          else Inr (Some (of_int (numerator left OR numerator right)))
      | BitXor \<Rightarrow>
          if fractional then Inr None
          else Inr (Some (of_int (numerator left XOR numerator right)))
      | BitAnd \<Rightarrow>
          if fractional then Inr None
          else Inr (Some (of_int (numerator left AND numerator right)))
      | Add \<Rightarrow> Inr (Some (left + right))
      | Sub \<Rightarrow> Inr (Some (left - right))
      | Mul \<Rightarrow> Inr (Some (left * right))
      | Div \<Rightarrow>
          if right = 0 then Inr None
          else Inr (Some (left / right))
      | Mod \<Rightarrow>
          if right = 0 then Inr None
          else if fractional then
            (let tempValue = left / right in
             Inr (Some (left - of_int (numerator tempValue sdiv denominator tempValue) * right)))
          else Inr (Some (of_int (numerator left smod numerator right)))
      | Exp \<Rightarrow> evaluateExp left right
      | SHL \<Rightarrow> Inr (evaluateSHL fitsPrecisionBaseX fractional left right)
      | SAR \<Rightarrow> Inr (evaluateSAR fractional left right)
      | _ \<Rightarrow> Inr None)"

text \<open>\<open>ConstantEvaluator::evaluateUnaryOperator\<close>.\<close>

definition evaluateUnaryOperator :: "Token \<Rightarrow> rational \<Rightarrow> rational option" where
  "evaluateUnaryOperator operator input =
     (case operator of
        BitNot \<Rightarrow> if denominator input \<noteq> 1 then None else Some (of_int (NOT (numerator input)))
      | Sub \<Rightarrow> Some (- input)
      | _ \<Rightarrow> None)"

section \<open>Types and typed values\<close>

text \<open>
  Modelled from the spec: the class hierarchy of \<open>Type\<close> is not part of the analysed
  sources. The evaluator distinguishes a rational-number type (which carries its
  constant value), a bounded integer type with inclusive bounds \<open>minValue\<close> and
  \<open>maxValue\<close>, and every other category.
\<close>

datatype Type =
    RationalNumberType rational
  | IntegerType (minValue: bigint) (maxValue: bigint)
  | OtherType

record TypedRational =
  tr_type :: Type
  tr_value :: rational

text \<open>\<open>convertType(rational const&, Type const&)\<close>; \<open>TypeProvider::rationalNumber(v)\<close>
  is the rational-number type of the value \<open>v\<close>.\<close>

definition convertType :: "rational \<Rightarrow> Type \<Rightarrow> TypedRational option" where
  "convertType v t =
     (case t of
        RationalNumberType _ \<Rightarrow> Some \<lparr>tr_type = RationalNumberType v, tr_value = v\<rparr>
      | IntegerType lo hi \<Rightarrow>
          if v > of_int hi \<or> v < of_int lo then None
          else Some \<lparr>tr_type = t, tr_value = of_int (numerator v sdiv denominator v)\<rparr>
      | OtherType \<Rightarrow> None)"

section \<open>Control-flow graph\<close>

text \<open>
  Modelled from the spec: the classes of the control-flow graph (\<open>CFGNode\<close>,
  \<open>VariableOccurrence\<close>, \<open>FunctionFlow\<close>), \<open>SourceLocation\<close> and
  \<open>VariableDeclaration\<close> are declared outside the analysed sources. A source location
  is a range \<open>(start, end)\<close>, ordered by position (start first, then end); a location
  that is not valid is \<open>None\<close>. A declaration carries its identity, its name, its
  location and whether its type stores data in storage or in calldata
  (\<open>type()->dataStoredIn(DataLocation::Storage)\<close>, \<open>...CallData\<close>).
\<close>

type_synonym SourceLocation = "int \<times> int"

abbreviation loc_start :: "SourceLocation \<Rightarrow> int" where
  "loc_start \<equiv> fst"

abbreviation loc_end :: "SourceLocation \<Rightarrow> int" where
  "loc_end \<equiv> snd"

record VariableDeclaration =
  decl_id :: nat
  name :: string
  decl_location :: SourceLocation
  storedInStorage :: bool
  storedInCallData :: bool

datatype Kind = Declaration | Access | Return | Assignment | InlineAssembly

record VariableOccurrence =
  kind :: Kind
  varDeclaration :: VariableDeclaration
  occurrence :: "SourceLocation option"

text \<open>
  Nodes live in an arena: a \<open>CFGNode const*\<close> is the index of the node, and pointers
  compare as their indices do. A \<open>VariableOccurrence const*\<close> points into the
  occurrence vector of a node: it is the pair of the node and the position.
\<close>

type_synonym CFGNodeRef = nat
type_synonym VariableOccurrenceRef = "CFGNodeRef \<times> nat"

record CFGNode =
  entries :: "CFGNodeRef list"
  exits :: "CFGNodeRef list"
  variableOccurrences :: "VariableOccurrence list"
  location :: "SourceLocation option"

type_synonym CFG = "CFGNodeRef \<Rightarrow> CFGNode"

definition occurrenceAt :: "CFG \<Rightarrow> VariableOccurrenceRef \<Rightarrow> VariableOccurrence" where
  "occurrenceAt cfg r = variableOccurrences (cfg (fst r)) ! snd r"

section \<open>Uninitialized access: the dataflow (checkUninitializedAccess)\<close>

text \<open>The local struct \<open>NodeInfo\<close>; a default-constructed one has three empty sets.\<close>

record NodeInfo =
  unassignedVariablesAtEntry :: "VariableDeclaration set"
  unassignedVariablesAtExit :: "VariableDeclaration set"
  uninitializedVariableAccesses :: "VariableOccurrenceRef set"

definition emptyNodeInfo :: NodeInfo where
  "emptyNodeInfo = \<lparr>unassignedVariablesAtEntry = {}, unassignedVariablesAtExit = {},
     uninitializedVariableAccesses = {}\<rparr>"

text \<open>\<open>NodeInfo::propagateFrom\<close>: the updated object and the returned flag.\<close>

definition propagateFrom :: "NodeInfo \<Rightarrow> NodeInfo \<Rightarrow> NodeInfo \<times> bool" where
  "propagateFrom this entryNode =
     (let previousUnassignedVariablesAtEntry = card (unassignedVariablesAtEntry this);
          previousUninitializedVariableAccessess = card (uninitializedVariableAccesses this);
          this' = this\<lparr>
            unassignedVariablesAtEntry :=
              unassignedVariablesAtEntry this \<union> unassignedVariablesAtExit entryNode,
            uninitializedVariableAccesses :=
              uninitializedVariableAccesses this \<union> uninitializedVariableAccesses entryNode\<rparr>
      in (this',
          card (unassignedVariablesAtEntry this') > previousUnassignedVariablesAtEntry
          \<or> card (uninitializedVariableAccesses this') > previousUninitializedVariableAccessess))"

text \<open>\<open>std::map::operator[]\<close>: a missing key reads as a default-constructed value.\<close>

type_synonym NodeInfos = "CFGNodeRef \<rightharpoonup> NodeInfo"

definition infoAt :: "NodeInfos \<Rightarrow> CFGNodeRef \<Rightarrow> NodeInfo" where
  "infoAt nodeInfos n = (case nodeInfos n of None \<Rightarrow> emptyNodeInfo | Some i \<Rightarrow> i)"

text \<open>
  One round of the \<open>switch\<close> over the kind of an occurrence; the state is the local
  set \<open>unassignedVariables\<close> and \<open>nodeInfo.uninitializedVariableAccesses\<close>.
\<close>

definition visitOccurrence ::
  "VariableOccurrenceRef \<Rightarrow> VariableOccurrence
   \<Rightarrow> VariableDeclaration set \<times> VariableOccurrenceRef set
   \<Rightarrow> VariableDeclaration set \<times> VariableOccurrenceRef set" where
  "visitOccurrence r variableOccurrence st =
     (case st of (unassignedVariables, accesses) \<Rightarrow>
        (case kind variableOccurrence of
           Assignment \<Rightarrow> (unassignedVariables - {varDeclaration variableOccurrence}, accesses)
         | InlineAssembly \<Rightarrow>
             if varDeclaration variableOccurrence \<in> unassignedVariables
             then (unassignedVariables, insert r accesses) else (unassignedVariables, accesses)
         | Access \<Rightarrow>
             if varDeclaration variableOccurrence \<in> unassignedVariables
             then (unassignedVariables, insert r accesses) else (unassignedVariables, accesses)
         | Return \<Rightarrow>
             if varDeclaration variableOccurrence \<in> unassignedVariables
             then (unassignedVariables, insert r accesses) else (unassignedVariables, accesses)
         | Declaration \<Rightarrow> (insert (varDeclaration variableOccurrence) unassignedVariables, accesses)))"

text \<open>The \<open>for\<close> loop over \<open>currentNode->variableOccurrences\<close>, from position \<open>i\<close> on.\<close>

fun replayOccurrences ::
  "CFGNodeRef \<Rightarrow> nat \<Rightarrow> VariableOccurrence list
   \<Rightarrow> VariableDeclaration set \<times> VariableOccurrenceRef set
   \<Rightarrow> VariableDeclaration set \<times> VariableOccurrenceRef set" where
  "replayOccurrences currentNode i [] st = st"
| "replayOccurrences currentNode i (variableOccurrence # rest) st =
     replayOccurrences currentNode (Suc i) rest
       (visitOccurrence (currentNode, i) variableOccurrence st)"

text \<open>Steps 4.2 to 4.6 of the loop body: the node's own occurrences.\<close>

definition traverseNode :: "CFG \<Rightarrow> CFGNodeRef \<Rightarrow> NodeInfos \<Rightarrow> NodeInfos" where
  "traverseNode cfg currentNode nodeInfos =
     (let nodeInfo = infoAt nodeInfos currentNode;
          (unassignedVariables, accesses) =
            replayOccurrences currentNode 0 (variableOccurrences (cfg currentNode))
              (unassignedVariablesAtEntry nodeInfo, uninitializedVariableAccesses nodeInfo)
      in nodeInfos(currentNode \<mapsto> nodeInfo\<lparr>
           unassignedVariablesAtExit := unassignedVariables,
           uninitializedVariableAccesses := accesses\<rparr>))"

text \<open>
  Step 4.7 for one exit. \<open>nodeInfo\<close> is a reference into the map, so it is read from
  the map at every exit (an exit may be the current node itself).
\<close>

definition propagateToExit ::
  "CFGNodeRef \<Rightarrow> CFGNodeRef \<Rightarrow> NodeInfos \<times> CFGNodeRef set \<Rightarrow> NodeInfos \<times> CFGNodeRef set" where
  "propagateToExit currentNode exit st =
     (case st of (nodeInfos, nodesToTraverse) \<Rightarrow>
        let exists = (nodeInfos exit \<noteq> None);
            (exitInfo, changed) = propagateFrom (infoAt nodeInfos exit) (infoAt nodeInfos currentNode);
            nodeInfos' = nodeInfos(exit \<mapsto> exitInfo)
        in if changed \<or> \<not> exists then (nodeInfos', insert exit nodesToTraverse)
           else (nodeInfos', nodesToTraverse))"

text \<open>The body of the \<open>while\<close> loop: \<open>*nodesToTraverse.begin()\<close> is the least pointer.\<close>

definition traverseStep :: "CFG \<Rightarrow> NodeInfos \<times> CFGNodeRef set \<Rightarrow> NodeInfos \<times> CFGNodeRef set" where
  "traverseStep cfg st =
     (case st of (nodeInfos, nodesToTraverse) \<Rightarrow>
        let currentNode = Min nodesToTraverse;
            nodesToTraverse' = nodesToTraverse - {currentNode};
            nodeInfos' = traverseNode cfg currentNode nodeInfos
        in foldl (\<lambda>s exit. propagateToExit currentNode exit s)
             (nodeInfos', nodesToTraverse') (exits (cfg currentNode)))"

text \<open>Steps 2 to 4: the loop may not terminate on an infinite graph, hence the option.\<close>

definition traverse :: "CFG \<Rightarrow> CFGNodeRef \<Rightarrow> NodeInfos option" where
  "traverse cfg entry =
     map_option fst
       (while_option (\<lambda>(nodeInfos, nodesToTraverse). nodesToTraverse \<noteq> {})
          (traverseStep cfg) (Map.empty, {entry}))"

section \<open>Uninitialized access: the reports\<close>

text \<open>
  Modelled from the spec: the error reporter is declared outside the analysed sources.
  It accumulates the diagnostics it is given; a type error is an error, a warning is not,
  and a fatal type error also ends the analysis that reports it.
\<close>

datatype Severity = Warning | TypeError | FatalTypeError

record Diagnostic =
  severity :: Severity
  errorId :: nat
  diag_location :: SourceLocation
  secondary :: "(string \<times> SourceLocation) list"
  message :: string

text \<open>The members of the analyzer that outlive one function.\<close>

record ControlFlowAnalyzer =
  m_errors :: "Diagnostic list"
  m_unassignedReturnVarsAlreadyWarnedFor :: "VariableDeclaration set"
  m_unreachableLocationsAlreadyWarnedFor :: "SourceLocation set"

definition typeError ::
  "nat \<Rightarrow> SourceLocation \<Rightarrow> (string \<times> SourceLocation) list \<Rightarrow> string
   \<Rightarrow> ControlFlowAnalyzer \<Rightarrow> ControlFlowAnalyzer" where
  "typeError eid loc ssl msg this =
     this\<lparr>m_errors := m_errors this @
       [\<lparr>severity = TypeError, errorId = eid, diag_location = loc, secondary = ssl, message = msg\<rparr>]\<rparr>"

definition warning ::
  "nat \<Rightarrow> SourceLocation \<Rightarrow> string \<Rightarrow> ControlFlowAnalyzer \<Rightarrow> ControlFlowAnalyzer" where
  "warning eid loc msg this =
     this\<lparr>m_errors := m_errors this @
       [\<lparr>severity = Warning, errorId = eid, diag_location = loc, secondary = [], message = msg\<rparr>]\<rparr>"

text \<open>Step 5.2: the body of the loop over the ordered accesses.\<close>

definition reportUninitializedAccess ::
  "bool \<Rightarrow> string option \<Rightarrow> VariableOccurrence \<Rightarrow> ControlFlowAnalyzer \<Rightarrow> ControlFlowAnalyzer" where
  "reportUninitializedAccess emptyBody contractName variableOccurrence this =
     (let varDecl = varDeclaration variableOccurrence;
          ssl = (case occurrence variableOccurrence of
                   Some _ \<Rightarrow> [(''The variable was declared here.'', decl_location varDecl)]
                 | None \<Rightarrow> []);
          isStorage = storedInStorage varDecl;
          isCalldata = storedInCallData varDecl
      in if isStorage \<or> isCalldata then
           typeError 3464
             (case occurrence variableOccurrence of Some l \<Rightarrow> l | None \<Rightarrow> decl_location varDecl)
             ssl
             (''This variable is of '' @ (if isStorage then ''storage'' else ''calldata'')
                @ '' pointer type and can be ''
                @ (if kind variableOccurrence = Return then ''returned'' else ''accessed'')
                @ '' without prior assignment, which would lead to undefined behaviour.'')
             this
         else if \<not> emptyBody \<and> name varDecl = [] then
           if varDecl \<in> m_unassignedReturnVarsAlreadyWarnedFor this then this
           else
             warning 6321 (decl_location varDecl)
               (''Unnamed return variable can remain unassigned''
                  @ (case contractName of
                       Some n \<Rightarrow> '' when the function is called when '' @ [CHR 0x22] @ n
                                  @ [CHR 0x22] @ '' is the most derived contract.''
                     | None \<Rightarrow> ''.'')
                  @ '' Add an explicit return with value to all non-reverting code paths or name the variable.'')
               (this\<lparr>m_unassignedReturnVarsAlreadyWarnedFor :=
                        insert varDecl (m_unassignedReturnVarsAlreadyWarnedFor this)\<rparr>)
         else this)"

text \<open>
  Step 5.1: the set of pointers is copied to a vector (in pointer order) and sorted
  with \<open>VariableOccurrence::operator<\<close>. That operator is declared outside the
  analysed sources, so the order is a parameter, given by a sort key.
\<close>

definition uninitializedAccessesOrdered ::
  "(VariableOccurrence \<Rightarrow> 'k::linorder) \<Rightarrow> CFG \<Rightarrow> VariableOccurrenceRef set
   \<Rightarrow> VariableOccurrenceRef list" where
  "uninitializedAccessesOrdered key cfg accesses =
     sort_key (\<lambda>r. key (occurrenceAt cfg r)) (sorted_list_of_set accesses)"

definition reportUninitializedAccesses ::
  "(VariableOccurrence \<Rightarrow> 'k::linorder) \<Rightarrow> CFG \<Rightarrow> bool \<Rightarrow> string option \<Rightarrow> NodeInfo
   \<Rightarrow> ControlFlowAnalyzer \<Rightarrow> ControlFlowAnalyzer" where
  "reportUninitializedAccesses key cfg emptyBody contractName exitInfo this =
     (if uninitializedVariableAccesses exitInfo \<noteq> {} then
        foldl (\<lambda>s r. reportUninitializedAccess emptyBody contractName (occurrenceAt cfg r) s) this
          (uninitializedAccessesOrdered key cfg (uninitializedVariableAccesses exitInfo))
      else this)"

text \<open>\<open>ControlFlowAnalyzer::checkUninitializedAccess\<close>.\<close>

definition checkUninitializedAccess ::
  "(VariableOccurrence \<Rightarrow> 'k::linorder) \<Rightarrow> CFG \<Rightarrow> CFGNodeRef \<Rightarrow> CFGNodeRef \<Rightarrow> bool
   \<Rightarrow> string option \<Rightarrow> ControlFlowAnalyzer \<Rightarrow> ControlFlowAnalyzer option" where
  "checkUninitializedAccess key cfg entry exit emptyBody contractName this =
     (case traverse cfg entry of
        None \<Rightarrow> None
      | Some nodeInfos \<Rightarrow>
          Some (reportUninitializedAccesses key cfg emptyBody contractName
                  (infoAt nodeInfos exit) this))"

section \<open>Unreachable code (checkUnreachable)\<close>

text \<open>
  Modelled from the spec: \<open>util::BreadthFirstSearch\<close> is declared outside the analysed
  sources. It takes vertices from the front of a queue, skips those already visited,
  and otherwise calls the visitor, which may add children to the back of the queue.
  The result is the set of visited vertices (and what the visitor accumulated).
\<close>

definition breadthFirstSearch ::
  "('v \<Rightarrow> 'v list) \<Rightarrow> ('v \<Rightarrow> 's \<Rightarrow> 's) \<Rightarrow> 'v list \<Rightarrow> 's \<Rightarrow> ('v set \<times> 's) option" where
  "breadthFirstSearch children visit verticesToTraverse s0 =
     map_option (\<lambda>(queue, visited, s). (visited, s))
       (while_option (\<lambda>(queue, visited, s). queue \<noteq> [])
          (\<lambda>(queue, visited, s).
             case queue of
               [] \<Rightarrow> (queue, visited, s)
             | v # queue' \<Rightarrow>
                 if v \<in> visited then (queue', visited, s)
                 else (queue' @ children v, insert v visited, visit v s))
          (verticesToTraverse, {}, s0))"

text \<open>Step 3.3: warn unless the (merged) location was warned for before.\<close>

definition warnUnreachable :: "SourceLocation \<Rightarrow> ControlFlowAnalyzer \<Rightarrow> ControlFlowAnalyzer" where
  "warnUnreachable loc this =
     (if loc \<in> m_unreachableLocationsAlreadyWarnedFor this then this
      else warning 5740 loc ''Unreachable code.''
             (this\<lparr>m_unreachableLocationsAlreadyWarnedFor :=
                      insert loc (m_unreachableLocationsAlreadyWarnedFor this)\<rparr>))"

text \<open>
  Step 3: the two nested loops over the ordered set. \<open>loc\<close> is the range being
  extended, the list is what the iterator has not reached yet.
\<close>

fun mergeAndWarn ::
  "SourceLocation \<Rightarrow> SourceLocation list \<Rightarrow> ControlFlowAnalyzer \<Rightarrow> ControlFlowAnalyzer" where
  "mergeAndWarn loc [] this = warnUnreachable loc this"
| "mergeAndWarn loc (it # rest) this =
     (if loc_start it \<le> loc_end loc
      then mergeAndWarn (loc_start loc, max (loc_end loc) (loc_end it)) rest this
      else mergeAndWarn it rest (warnUnreachable loc this))"

definition reportUnreachable ::
  "SourceLocation set \<Rightarrow> ControlFlowAnalyzer \<Rightarrow> ControlFlowAnalyzer" where
  "reportUnreachable unreachable this =
     (case sorted_list_of_set unreachable of
        [] \<Rightarrow> this
      | loc # rest \<Rightarrow> mergeAndWarn loc rest this)"

text \<open>The visitor of the backward search (step 2).\<close>

definition recordUnreachable ::
  "CFG \<Rightarrow> CFGNodeRef set \<Rightarrow> CFGNodeRef \<Rightarrow> SourceLocation set \<Rightarrow> SourceLocation set" where
  "recordUnreachable cfg reachable node unreachable =
     (case location (cfg node) of
        Some loc \<Rightarrow> if node \<notin> reachable then insert loc unreachable else unreachable
      | None \<Rightarrow> unreachable)"

text \<open>\<open>ControlFlowAnalyzer::checkUnreachable\<close>.\<close>

definition checkUnreachable ::
  "CFG \<Rightarrow> CFGNodeRef \<Rightarrow> CFGNodeRef \<Rightarrow> CFGNodeRef \<Rightarrow> CFGNodeRef
   \<Rightarrow> ControlFlowAnalyzer \<Rightarrow> ControlFlowAnalyzer option" where
  "checkUnreachable cfg entry exit revert transactionReturn this =
     (case breadthFirstSearch (\<lambda>node. exits (cfg node)) (\<lambda>node u. u) [entry] () of
        None \<Rightarrow> None
      | Some (reachable, u) \<Rightarrow>
          (case breadthFirstSearch (\<lambda>node. entries (cfg node)) (recordUnreachable cfg reachable)
                  [exit, revert, transactionReturn] {} of
             None \<Rightarrow> None
           | Some (visited, unreachable) \<Rightarrow> Some (reportUnreachable unreachable this)))"

section \<open>The analysis of all functions (run, analyze)\<close>

text \<open>
  What \<open>analyze\<close> reads of a function, its contract and its flow. Contracts are
  compared by identity, here by a number.
\<close>

record FunctionFlow =
  flow_entry :: CFGNodeRef
  flow_exit :: CFGNodeRef
  flow_revert :: CFGNodeRef
  flow_transactionReturn :: CFGNodeRef

record FunctionDefinition =
  isImplemented :: bool
  annotationContract :: nat
  bodyEmpty :: bool

record ContractDefinition =
  contract_id :: nat
  contract_name :: string

text \<open>\<open>ControlFlowAnalyzer::analyze\<close>.\<close>

definition analyze ::
  "(VariableOccurrence \<Rightarrow> 'k::linorder) \<Rightarrow> CFG \<Rightarrow> FunctionDefinition
   \<Rightarrow> ContractDefinition option \<Rightarrow> FunctionFlow
   \<Rightarrow> ControlFlowAnalyzer \<Rightarrow> ControlFlowAnalyzer option" where
  "analyze key cfg function contract flow this =
     (if \<not> isImplemented function then Some this
      else
        let mostDerivedContractName =
              (case contract of
                 Some c \<Rightarrow>
                   if contract_id c \<noteq> annotationContract function then Some (contract_name c)
                   else None
               | None \<Rightarrow> None)
        in case checkUninitializedAccess key cfg (flow_entry flow) (flow_exit flow)
                  (bodyEmpty function) mostDerivedContractName this of
             None \<Rightarrow> None
           | Some this1 \<Rightarrow>
               checkUnreachable cfg (flow_entry flow) (flow_exit flow) (flow_revert flow)
                 (flow_transactionReturn flow) this1)"

text \<open>
  Modelled from the spec: \<open>Error::containsErrors\<close> is declared outside the analysed
  sources; a diagnostic that is not a warning is an error.
\<close>

definition containsErrors :: "Diagnostic list \<Rightarrow> bool" where
  "containsErrors ds = list_ex (\<lambda>d. severity d \<noteq> Warning) ds"

text \<open>
  \<open>ControlFlowAnalyzer::run\<close>: the loop over \<open>m_cfg.allFunctionFlows()\<close>, given as the
  list of its entries in the order of the iteration, and the result.
\<close>

fun analyzeAll ::
  "(VariableOccurrence \<Rightarrow> 'k::linorder) \<Rightarrow> CFG
   \<Rightarrow> (FunctionDefinition \<times> ContractDefinition option \<times> FunctionFlow) list
   \<Rightarrow> ControlFlowAnalyzer \<Rightarrow> ControlFlowAnalyzer option" where
  "analyzeAll key cfg [] this = Some this"
| "analyzeAll key cfg ((function, contract, flow) # rest) this =
     (case analyze key cfg function contract flow this of
        None \<Rightarrow> None
      | Some this1 \<Rightarrow> analyzeAll key cfg rest this1)"

definition run ::
  "(VariableOccurrence \<Rightarrow> 'k::linorder) \<Rightarrow> CFG
   \<Rightarrow> (FunctionDefinition \<times> ContractDefinition option \<times> FunctionFlow) list
   \<Rightarrow> ControlFlowAnalyzer \<Rightarrow> (bool \<times> ControlFlowAnalyzer) option" where
  "run key cfg allFunctionFlows this =
     (case analyzeAll key cfg allFunctionFlows this of
        None \<Rightarrow> None
      | Some this' \<Rightarrow> Some (\<not> containsErrors (m_errors this'), this'))"

section \<open>The replay of a node, as the specification words it\<close>

text \<open>
  These definitions follow the specification, not the sources: a declaration adds the
  variable to the unassigned set, an assignment removes it, and an access, return or
  inline-assembly occurrence (a use) leaves the set as it is.
\<close>

definition isUse :: "Kind \<Rightarrow> bool" where
  "isUse k = (k = Access \<or> k = Return \<or> k = InlineAssembly)"

definition unassignedStep :: "VariableOccurrence \<Rightarrow> VariableDeclaration set \<Rightarrow> VariableDeclaration set" where
  "unassignedStep occ U =
     (if kind occ = Declaration then insert (varDeclaration occ) U
      else if kind occ = Assignment then U - {varDeclaration occ}
      else U)"

fun unassignedAfter :: "VariableOccurrence list \<Rightarrow> VariableDeclaration set \<Rightarrow> VariableDeclaration set" where
  "unassignedAfter [] U = U"
| "unassignedAfter (occ # rest) U = unassignedAfter rest (unassignedStep occ U)"

section \<open>An example node\<close>

text \<open>A storage pointer that is declared, read, assigned and then returned.\<close>

definition x0 :: VariableDeclaration where
  "x0 = \<lparr>decl_id = 1, name = ''x'', decl_location = (10, 20), storedInStorage = True,
     storedInCallData = False\<rparr>"

definition node0 :: CFGNode where
  "node0 = \<lparr>entries = [], exits = [],
     variableOccurrences =
       [\<lparr>kind = Declaration, varDeclaration = x0, occurrence = Some (10, 20)\<rparr>,
        \<lparr>kind = Access, varDeclaration = x0, occurrence = Some (30, 31)\<rparr>,
        \<lparr>kind = Assignment, varDeclaration = x0, occurrence = Some (40, 45)\<rparr>,
        \<lparr>kind = Return, varDeclaration = x0, occurrence = None\<rparr>],
     location = Some (0, 50)\<rparr>"

section \<open>The diagnostics, as the specification words them\<close>

text \<open>
  These definitions follow the specification: the hard error for a storage or calldata
  pointer, the warning for an unnamed return variable, and the property that the
  declarations \<open>ds\<close> were each warned for once and no others were: they are distinct,
  they are the declarations the analyzer remembers, and the warnings for unnamed return
  variables among the diagnostics are, one for one and in this order, at their sites.
\<close>

definition storagePointerError :: "VariableOccurrence \<Rightarrow> Diagnostic" where
  "storagePointerError occ =
     \<lparr>severity = TypeError, errorId = 3464,
      diag_location = (case occurrence occ of Some l \<Rightarrow> l
                       | None \<Rightarrow> decl_location (varDeclaration occ)),
      secondary = (case occurrence occ of
                     Some l \<Rightarrow> [(''The variable was declared here.'', decl_location (varDeclaration occ))]
                   | None \<Rightarrow> []),
      message = ''This variable is of ''
        @ (if storedInStorage (varDeclaration occ) then ''storage'' else ''calldata'')
        @ '' pointer type and can be ''
        @ (if kind occ = Return then ''returned'' else ''accessed'')
        @ '' without prior assignment, which would lead to undefined behaviour.''\<rparr>"

definition unnamedReturnWarning :: "string option \<Rightarrow> VariableOccurrence \<Rightarrow> Diagnostic" where
  "unnamedReturnWarning contractName occ =
     \<lparr>severity = Warning, errorId = 6321,
      diag_location = decl_location (varDeclaration occ),
      secondary = [],
      message = ''Unnamed return variable can remain unassigned''
        @ (case contractName of
             Some n \<Rightarrow> '' when the function is called when '' @ [CHR 0x22] @ n
                        @ [CHR 0x22] @ '' is the most derived contract.''
           | None \<Rightarrow> ''.'')
        @ '' Add an explicit return with value to all non-reverting code paths or name the variable.''\<rparr>"

definition warnedOnceEach :: "VariableDeclaration list \<Rightarrow> ControlFlowAnalyzer \<Rightarrow> bool" where
  "warnedOnceEach ds this =
     (distinct ds \<and> set ds = m_unassignedReturnVarsAlreadyWarnedFor this
      \<and> map diag_location (filter (\<lambda>x. severity x = Warning \<and> errorId x = 6321) (m_errors this))
          = map decl_location ds)"

definition newAnalyzer :: ControlFlowAnalyzer where
  "newAnalyzer = \<lparr>m_errors = [], m_unassignedReturnVarsAlreadyWarnedFor = {},
     m_unreachableLocationsAlreadyWarnedFor = {}\<rparr>"

text \<open>Two unnamed return variables, declared at the same offsets of two source units.\<close>

definition y0 :: VariableDeclaration where
  "y0 = \<lparr>decl_id = 2, name = [], decl_location = (60, 64), storedInStorage = False,
     storedInCallData = False\<rparr>"

definition y1 :: VariableDeclaration where
  "y1 = \<lparr>decl_id = 3, name = [], decl_location = (60, 64), storedInStorage = False,
     storedInCallData = False\<rparr>"

section \<open>Paths of the graph and the origin of a flag\<close>

text \<open>
  The successor edges of the graph, and the property that every flag held by a node
  comes from a use in a node from which that node can be reached along successor edges.
\<close>

definition exitEdges :: "CFG \<Rightarrow> (CFGNodeRef \<times> CFGNodeRef) set" where
  "exitEdges cfg = {(n, m). m \<in> set (exits (cfg n))}"

definition flagsOriginate :: "CFG \<Rightarrow> NodeInfos \<Rightarrow> bool" where
  "flagsOriginate cfg nodeInfos =
     (\<forall>m. finite (uninitializedVariableAccesses (infoAt nodeInfos m))
        \<and> (\<forall>r\<in>uninitializedVariableAccesses (infoAt nodeInfos m).
              (fst r, m) \<in> (exitEdges cfg)\<^sup>*
              \<and> snd r < length (variableOccurrences (cfg (fst r)))
              \<and> isUse (kind (occurrenceAt cfg r))))"

section \<open>An example function\<close>

text \<open>
  Node 0 is the entry and declares a storage pointer; node 1 reads it and leads to the
  revert node 4; node 2 assigns it and leads to the exit node 3, which returns it.
  Node 5 is the transaction-return node. Nodes 6 and 7 lead to the exit but cannot be
  reached from the entry; node 8 is a loop entered from node 6 that is never left.
\<close>

definition exampleFlow :: CFG where
  "exampleFlow n =
     (if n = 0 then
        \<lparr>entries = [], exits = [1, 2],
         variableOccurrences = [\<lparr>kind = Declaration, varDeclaration = x0, occurrence = Some (2, 8)\<rparr>],
         location = Some (0, 9)\<rparr>
      else if n = 1 then
        \<lparr>entries = [0], exits = [4],
         variableOccurrences = [\<lparr>kind = Access, varDeclaration = x0, occurrence = Some (12, 13)\<rparr>],
         location = Some (10, 19)\<rparr>
      else if n = 2 then
        \<lparr>entries = [0], exits = [3],
         variableOccurrences = [\<lparr>kind = Assignment, varDeclaration = x0, occurrence = Some (22, 23)\<rparr>],
         location = Some (20, 29)\<rparr>
      else if n = 3 then
        \<lparr>entries = [2, 7], exits = [],
         variableOccurrences = [\<lparr>kind = Return, varDeclaration = x0, occurrence = None\<rparr>],
         location = None\<rparr>
      else if n = 4 then
        \<lparr>entries = [1], exits = [], variableOccurrences = [], location = None\<rparr>
      else if n = 6 then
        \<lparr>entries = [], exits = [7, 8], variableOccurrences = [], location = Some (40, 49)\<rparr>
      else if n = 7 then
        \<lparr>entries = [6], exits = [3], variableOccurrences = [], location = Some (45, 60)\<rparr>
      else if n = 8 then
        \<lparr>entries = [6, 8], exits = [8], variableOccurrences = [], location = Some (70, 80)\<rparr>
      else
        \<lparr>entries = [], exits = [], variableOccurrences = [], location = None\<rparr>)"

section \<open>An example with return variables\<close>

text \<open>
  Function \<open>f\<close> of contract \<open>C\<close> (nodes 0 to 3): node 0 is the entry, declares the
  storage pointer and the unnamed return variable and reads the pointer; node 1 assigns
  the return variable, node 2 does not; both lead to the exit node 3, which returns
  both variables. Function \<open>g\<close> of contract \<open>D\<close> (nodes 6 and 7) declares and returns
  another unnamed return variable. Nodes 4 and 5 are the revert and transaction-return
  nodes. The analyzer runs over \<open>f\<close> in \<open>C\<close>, over \<open>f\<close> as inherited by \<open>D\<close>, and over
  \<open>g\<close>; \<open>returnsReport\<close> is the analyzer after the first check of \<open>f\<close>.
\<close>

definition returnsFlow :: CFG where
  "returnsFlow n =
     (if n = 0 then
        \<lparr>entries = [], exits = [1, 2],
         variableOccurrences =
           [\<lparr>kind = Declaration, varDeclaration = x0, occurrence = Some (10, 20)\<rparr>,
            \<lparr>kind = Declaration, varDeclaration = y0, occurrence = Some (60, 64)\<rparr>,
            \<lparr>kind = Access, varDeclaration = x0, occurrence = Some (30, 31)\<rparr>],
         location = Some (0, 39)\<rparr>
      else if n = 1 then
        \<lparr>entries = [0], exits = [3],
         variableOccurrences =
           [\<lparr>kind = Assignment, varDeclaration = y0, occurrence = Some (42, 47)\<rparr>],
         location = Some (40, 49)\<rparr>
      else if n = 2 then
        \<lparr>entries = [0], exits = [3], variableOccurrences = [], location = Some (50, 59)\<rparr>
      else if n = 3 then
        \<lparr>entries = [1, 2], exits = [],
         variableOccurrences =
           [\<lparr>kind = Return, varDeclaration = x0, occurrence = None\<rparr>,
            \<lparr>kind = Return, varDeclaration = y0, occurrence = None\<rparr>],
         location = None\<rparr>
      else if n = 6 then
        \<lparr>entries = [], exits = [7],
         variableOccurrences =
           [\<lparr>kind = Declaration, varDeclaration = y1, occurrence = Some (60, 64)\<rparr>],
         location = Some (0, 9)\<rparr>
      else if n = 7 then
        \<lparr>entries = [6], exits = [],
         variableOccurrences = [\<lparr>kind = Return, varDeclaration = y1, occurrence = None\<rparr>],
         location = None\<rparr>
      else
        \<lparr>entries = [], exits = [], variableOccurrences = [], location = None\<rparr>)"

definition returnsFunctions ::
  "(FunctionDefinition \<times> ContractDefinition option \<times> FunctionFlow) list" where
  "returnsFunctions =
     [(\<lparr>isImplemented = True, annotationContract = 1, bodyEmpty = False\<rparr>,
       Some \<lparr>contract_id = 1, contract_name = ''C''\<rparr>,
       \<lparr>flow_entry = 0, flow_exit = 3, flow_revert = 4, flow_transactionReturn = 5\<rparr>),
      (\<lparr>isImplemented = True, annotationContract = 1, bodyEmpty = False\<rparr>,
       Some \<lparr>contract_id = 2, contract_name = ''D''\<rparr>,
       \<lparr>flow_entry = 0, flow_exit = 3, flow_revert = 4, flow_transactionReturn = 5\<rparr>),
      (\<lparr>isImplemented = True, annotationContract = 2, bodyEmpty = False\<rparr>,
       Some \<lparr>contract_id = 2, contract_name = ''D''\<rparr>,
       \<lparr>flow_entry = 6, flow_exit = 7, flow_revert = 4, flow_transactionReturn = 5\<rparr>)]"

definition returnsReport :: ControlFlowAnalyzer where
  "returnsReport =
     newAnalyzer\<lparr>m_errors :=
       [\<lparr>severity = TypeError, errorId = 3464, diag_location = (30, 31),
          secondary = [(''The variable was declared here.'', (10, 20))],
          message = ''This variable is of storage pointer type and can be accessed without prior assignment, which would lead to undefined behaviour.''\<rparr>,
        \<lparr>severity = TypeError, errorId = 3464, diag_location = (10, 20), secondary = [],
          message = ''This variable is of storage pointer type and can be returned without prior assignment, which would lead to undefined behaviour.''\<rparr>,
        \<lparr>severity = Warning, errorId = 6321, diag_location = (60, 64), secondary = [],
          message = ''Unnamed return variable can remain unassigned. Add an explicit return with value to all non-reverting code paths or name the variable.''\<rparr>],
       m_unassignedReturnVarsAlreadyWarnedFor := {y0}\<rparr>"

section \<open>Reachability, and the search as a loop\<close>

text \<open>
  The edges a search follows, the body of the search loop, the invariant of the loop
  (what is visited or queued is reachable, the start vertices are visited or queued,
  the children of a visited vertex are visited or queued) and the measure that
  decreases with every round when only finitely many vertices are reachable.
\<close>

definition childEdges :: "('v \<Rightarrow> 'v list) \<Rightarrow> ('v \<times> 'v) set" where
  "childEdges children = {(v, c). c \<in> set (children v)}"

definition bfsStep ::
  "('v \<Rightarrow> 'v list) \<Rightarrow> ('v \<Rightarrow> 's \<Rightarrow> 's) \<Rightarrow> 'v list \<times> 'v set \<times> 's \<Rightarrow> 'v list \<times> 'v set \<times> 's" where
  "bfsStep children visit st =
     (case st of (queue, visited, s) \<Rightarrow>
        case queue of
          [] \<Rightarrow> (queue, visited, s)
        | v # queue' \<Rightarrow>
            if v \<in> visited then (queue', visited, s)
            else (queue' @ children v, insert v visited, visit v s))"

definition bfsInvariant ::
  "('v \<Rightarrow> 'v list) \<Rightarrow> 'v list \<Rightarrow> 'v list \<times> 'v set \<times> 's \<Rightarrow> bool" where
  "bfsInvariant children init st =
     (case st of (queue, visited, s) \<Rightarrow>
        visited \<union> set queue \<subseteq> (childEdges children)\<^sup>* `` set init
        \<and> set init \<subseteq> visited \<union> set queue
        \<and> (\<forall>v\<in>visited. set (children v) \<subseteq> visited \<union> set queue))"

definition bfsMeasure ::
  "('v \<Rightarrow> 'v list) \<Rightarrow> 'v set \<Rightarrow> 'v list \<times> 'v set \<times> 's \<Rightarrow> nat" where
  "bfsMeasure children N st =
     (case st of (queue, visited, s) \<Rightarrow>
        (\<Sum>v\<in>N - visited. Suc (length (children v))) + length queue)"

section \<open>Unreachable code, as the specification words it\<close>

text \<open>
  These definitions follow the specification: the predecessor edges; the locations
  recorded, those of the nodes found from the exit, revert or transaction-return node
  along predecessor edges that are not reachable from the entry along successor edges;
  and the merge of a sorted list of locations, where a location that starts at or
  before the end of the current range is coalesced into it.
\<close>

definition entryEdges :: "CFG \<Rightarrow> (CFGNodeRef \<times> CFGNodeRef) set" where
  "entryEdges cfg = {(n, m). m \<in> set (entries (cfg n))}"

definition unreachableLocations ::
  "CFG \<Rightarrow> CFGNodeRef \<Rightarrow> CFGNodeRef \<Rightarrow> CFGNodeRef \<Rightarrow> CFGNodeRef \<Rightarrow> SourceLocation set" where
  "unreachableLocations cfg entry exit revert transactionReturn =
     {loc. \<exists>n. n \<in> (entryEdges cfg)\<^sup>* `` {exit, revert, transactionReturn}
              \<and> (entry, n) \<notin> (exitEdges cfg)\<^sup>*
              \<and> location (cfg n) = Some loc}"

fun mergeRanges :: "SourceLocation list \<Rightarrow> SourceLocation list" where
  "mergeRanges [] = []"
| "mergeRanges [l] = [l]"
| "mergeRanges (l # l' # ls) =
     (if loc_start l' \<le> loc_end l
      then mergeRanges ((loc_start l, max (loc_end l) (loc_end l')) # ls)
      else l # mergeRanges (l' # ls))"

section \<open>The dataflow as a loop that ends\<close>

text \<open>
  The nodes reachable from the entry, the declarations and occurrences found in a set
  of nodes, and what the loop has learnt so far: the variables unassigned at the entry
  of a node, the accesses flagged at a node and the nodes that have an entry in the
  map. Every round of the loop keeps these facts within those of the reachable nodes
  (the invariant), and either adds a fact or takes a node from the work list without
  adding one (the measure). A flow is analysable when finitely many nodes are reachable
  from its entry and finitely many are found backwards from its three final nodes.
\<close>

definition reachableNodes :: "CFG \<Rightarrow> CFGNodeRef \<Rightarrow> CFGNodeRef set" where
  "reachableNodes cfg entry = (exitEdges cfg)\<^sup>* `` {entry}"

definition declarationsIn :: "CFG \<Rightarrow> CFGNodeRef set \<Rightarrow> VariableDeclaration set" where
  "declarationsIn cfg R = (\<Union>n\<in>R. varDeclaration ` set (variableOccurrences (cfg n)))"

definition occurrencesIn :: "CFG \<Rightarrow> CFGNodeRef set \<Rightarrow> VariableOccurrenceRef set" where
  "occurrencesIn cfg R = (SIGMA n:R. {..<length (variableOccurrences (cfg n))})"

datatype Fact = Unassigned VariableDeclaration | Flagged VariableOccurrenceRef | Visited

definition facts :: "NodeInfos \<Rightarrow> (CFGNodeRef \<times> Fact) set" where
  "facts nodeInfos =
     {(n, f). case f of
        Unassigned d \<Rightarrow> d \<in> unassignedVariablesAtEntry (infoAt nodeInfos n)
      | Flagged r \<Rightarrow> r \<in> uninitializedVariableAccesses (infoAt nodeInfos n)
      | Visited \<Rightarrow> nodeInfos n \<noteq> None}"

definition allFacts :: "CFG \<Rightarrow> CFGNodeRef set \<Rightarrow> (CFGNodeRef \<times> Fact) set" where
  "allFacts cfg R =
     R \<times> (Unassigned ` declarationsIn cfg R \<union> Flagged ` occurrencesIn cfg R \<union> {Visited})"

definition traverseInvariant :: "CFG \<Rightarrow> CFGNodeRef set \<Rightarrow> NodeInfos \<times> CFGNodeRef set \<Rightarrow> bool" where
  "traverseInvariant cfg R st =
     (snd st \<subseteq> R \<and> facts (fst st) \<subseteq> allFacts cfg R
      \<and> (\<forall>n. unassignedVariablesAtExit (infoAt (fst st) n) \<subseteq> declarationsIn cfg R))"

definition traverseMeasure :: "CFG \<Rightarrow> CFGNodeRef set \<Rightarrow> NodeInfos \<times> CFGNodeRef set \<Rightarrow> nat" where
  "traverseMeasure cfg R st =
     card (allFacts cfg R - facts (fst st)) * (card R + 1) + card (snd st)"

definition analysable :: "CFG \<Rightarrow> FunctionFlow \<Rightarrow> bool" where
  "analysable cfg flow =
     (finite (reachableNodes cfg (flow_entry flow))
      \<and> finite ((entryEdges cfg)\<^sup>* ``
          {flow_exit flow, flow_revert flow, flow_transactionReturn flow}))"

section \<open>The constant evaluator (ConstantEvaluator::evaluate)\<close>

text \<open>
  Modelled from the spec: the classes of the syntax tree are declared outside the
  analysed sources. A node is known by its identity (the key of \<open>m_values\<close>). An
  expression is a binary or unary operation (with its location), a literal (with the
  type \<open>TypeProvider::forLiteral\<close> finds for it, if any), an identifier (with the
  variable declaration it refers to, if it refers to one), a tuple, or something else.
  A variable declaration has a constant flag, an initial value and a type (both may be
  missing) and a location.
\<close>

type_synonym ASTNodeRef = nat

datatype Expression =
    BinaryOperation ASTNodeRef SourceLocation Token Expression Expression
  | UnaryOperation ASTNodeRef SourceLocation Token Expression
  | Literal ASTNodeRef "Type option"
  | Identifier ASTNodeRef "ASTNodeRef option"
  | TupleExpression ASTNodeRef "Expression list"
  | OtherExpression ASTNodeRef

fun nodeOf :: "Expression \<Rightarrow> ASTNodeRef" where
  "nodeOf (BinaryOperation i loc operator l r) = i"
| "nodeOf (UnaryOperation i loc operator sub) = i"
| "nodeOf (Literal i t) = i"
| "nodeOf (Identifier i d) = i"
| "nodeOf (TupleExpression i components) = i"
| "nodeOf (OtherExpression i) = i"

record VariableDeclarationNode =
  vd_isConstant :: bool
  vd_value :: "Expression option"
  vd_type :: "Type option"
  vd_location :: SourceLocation

text \<open>
  What the evaluator takes from its surroundings: the declarations of the syntax tree,
  the type rules \<open>binaryOperatorResult\<close> and \<open>unaryOperatorResult\<close>, the precision
  guard \<open>fitsPrecisionBaseX\<close>, and the texts of tokens and types for messages. All of
  them are declared outside the analysed sources and are parameters here.
\<close>

record Surroundings =
  declarationAt :: "ASTNodeRef \<Rightarrow> VariableDeclarationNode"
  binaryOperatorResult :: "Type \<Rightarrow> Token \<Rightarrow> Type \<Rightarrow> Type option"
  unaryOperatorResult :: "Type \<Rightarrow> Token \<Rightarrow> Type option"
  precisionGuardBaseX :: precisionGuard
  tokenToString :: "Token \<Rightarrow> string"
  typeToString :: "Type \<Rightarrow> string"

text \<open>The members of the evaluator; the error reporter is the list of its reports.\<close>

record ConstantEvaluator =
  m_depth :: nat
  m_values :: "ASTNodeRef \<rightharpoonup> TypedRational option"
  m_errorReporter :: "Diagnostic list"

definition newEvaluator :: ConstantEvaluator where
  "newEvaluator = \<lparr>m_depth = 0, m_values = Map.empty, m_errorReporter = []\<rparr>"

text \<open>
  A call returns a value or leaves by an exception, and the evaluator's members are as
  the call left them; \<open>None\<close> stands for a call that needs more steps than the fuel
  it was given.
\<close>

type_synonym 'a evalResult = "((failure + 'a) \<times> ConstantEvaluator) option"

definition thenDo ::
  "'a evalResult \<Rightarrow> ('a \<Rightarrow> ConstantEvaluator \<Rightarrow> 'b evalResult) \<Rightarrow> 'b evalResult" where
  "thenDo r k =
     (case r of
        None \<Rightarrow> None
      | Some (Inl f, s) \<Rightarrow> Some (Inl f, s)
      | Some (Inr v, s) \<Rightarrow> k v s)"

definition returns :: "'a \<Rightarrow> ConstantEvaluator \<Rightarrow> 'a evalResult" where
  "returns v s = Some (Inr v, s)"

text \<open>
  Modelled from the spec: \<open>ErrorReporter::fatalTypeError\<close> is declared outside the
  analysed sources. It records the error and abandons the evaluation: the call leaves
  by the exception \<open>FatalError\<close>, which nothing in the evaluator catches.
\<close>

definition fatalTypeError ::
  "nat \<Rightarrow> SourceLocation \<Rightarrow> string \<Rightarrow> ConstantEvaluator \<Rightarrow> 'a evalResult" where
  "fatalTypeError eid loc msg s =
     Some (Inl FatalError,
       s\<lparr>m_errorReporter := m_errorReporter s @
         [\<lparr>severity = FatalTypeError, errorId = eid, diag_location = loc, secondary = [],
           message = msg\<rparr>]\<rparr>)"

definition cache :: "ASTNodeRef \<Rightarrow> TypedRational option \<Rightarrow> ConstantEvaluator \<Rightarrow> ConstantEvaluator" where
  "cache node v s = s\<lparr>m_values := (m_values s)(node \<mapsto> v)\<rparr>"

text \<open>\<open>convertType(std::optional<TypedRational> const&, Type const&)\<close>.\<close>

definition convertTypedValue :: "TypedRational option \<Rightarrow> Type \<Rightarrow> TypedRational option" where
  "convertTypedValue v t = (case v of Some tv \<Rightarrow> convertType (tr_value tv) t | None \<Rightarrow> None)"

definition constantToTypedValue :: "Type \<Rightarrow> TypedRational option" where
  "constantToTypedValue t =
     (case t of
        RationalNumberType v \<Rightarrow> Some \<lparr>tr_type = t, tr_value = v\<rparr>
      | _ \<Rightarrow> None)"

text \<open>
  \<open>ConstantEvaluator::evaluate(ASTNode const&)\<close>, split by the kind of the node, the
  visitor's traversal (\<open>accept\<close>: the children first, then \<open>endVisit\<close>; modelled from
  the spec, the traversal is declared outside the analysed sources) and the \<open>endVisit\<close>
  handlers (the one for tuples is modelled from the spec). The functions call each
  other; each body is written with the functions it calls as arguments, and the
  functions proper (below) tie the bodies together, one unit of fuel per call. In
  \<open>m_values[&_node] = convertType(evaluate(...), ...)\<close> the right-hand side is evaluated
  first, so the node is not in the cache while its initial value is evaluated.
\<close>

definition evaluateDeclarationBody ::
  "(Expression \<Rightarrow> ConstantEvaluator \<Rightarrow> TypedRational option evalResult)
   \<Rightarrow> Surroundings \<Rightarrow> ASTNodeRef \<Rightarrow> ConstantEvaluator \<Rightarrow> TypedRational option evalResult" where
  "evaluateDeclarationBody evaluate env node s =
     (case m_values s node of
        Some v \<Rightarrow> returns v s
      | None \<Rightarrow>
          let varDecl = declarationAt env node in
          if \<not> vd_isConstant varDecl then Some (Inl InternalCompilerError, s)
          else
            (case vd_value varDecl of
               None \<Rightarrow> returns None (cache node None s)
             | Some initialValue \<Rightarrow>
                 (case vd_type varDecl of
                    None \<Rightarrow> returns None (cache node None s)
                  | Some t \<Rightarrow>
                      let s1 = s\<lparr>m_depth := m_depth s + 1\<rparr> in
                      if m_depth s1 > 32 then
                        fatalTypeError 5210 (vd_location varDecl)
                          ''Cyclic constant definition (or maximum recursion depth exhausted).'' s1
                      else
                        thenDo (evaluate initialValue s1) (\<lambda>v s2.
                          let r = convertTypedValue v t;
                              s3 = cache node r s2
                          in returns r (s3\<lparr>m_depth := m_depth s3 - 1\<rparr>)))))"

definition evaluateExpressionBody ::
  "(Expression \<Rightarrow> ConstantEvaluator \<Rightarrow> unit evalResult)
   \<Rightarrow> Expression \<Rightarrow> ConstantEvaluator \<Rightarrow> TypedRational option evalResult" where
  "evaluateExpressionBody accept e s =
     (case m_values s (nodeOf e) of
        Some v \<Rightarrow> returns v s
      | None \<Rightarrow>
          thenDo (accept e s) (\<lambda>u s1.
            case m_values s1 (nodeOf e) of
              Some v \<Rightarrow> returns v s1
            | None \<Rightarrow> returns None (cache (nodeOf e) None s1)))"

definition acceptBody ::
  "(Expression \<Rightarrow> ConstantEvaluator \<Rightarrow> unit evalResult)
   \<Rightarrow> (Expression list \<Rightarrow> ConstantEvaluator \<Rightarrow> unit evalResult)
   \<Rightarrow> (Expression \<Rightarrow> ConstantEvaluator \<Rightarrow> unit evalResult)
   \<Rightarrow> Expression \<Rightarrow> ConstantEvaluator \<Rightarrow> unit evalResult" where
  "acceptBody accept acceptAll endVisit e s =
     (case e of
        BinaryOperation i loc operator l r \<Rightarrow>
          thenDo (accept l s) (\<lambda>u s1. thenDo (accept r s1) (\<lambda>u s2. endVisit e s2))
      | UnaryOperation i loc operator sub \<Rightarrow>
          thenDo (accept sub s) (\<lambda>u s1. endVisit e s1)
      | TupleExpression i components \<Rightarrow>
          thenDo (acceptAll components s) (\<lambda>u s1. endVisit e s1)
      | _ \<Rightarrow> endVisit e s)"

definition endVisitUnaryOperation ::
  "(Expression \<Rightarrow> ConstantEvaluator \<Rightarrow> TypedRational option evalResult)
   \<Rightarrow> Surroundings \<Rightarrow> ASTNodeRef \<Rightarrow> SourceLocation \<Rightarrow> Token \<Rightarrow> Expression
   \<Rightarrow> ConstantEvaluator \<Rightarrow> unit evalResult" where
  "endVisitUnaryOperation evaluate env i loc operator sub s =
     thenDo (evaluate sub s) (\<lambda>v s1.
       case v of
         None \<Rightarrow> returns () s1
       | Some v0 \<Rightarrow>
           (case unaryOperatorResult env (tr_type v0) operator of
              None \<Rightarrow> returns () s1
            | Some resultType \<Rightarrow>
                (case convertTypedValue (Some v0) resultType of
                   None \<Rightarrow> returns () s1
                 | Some v1 \<Rightarrow>
                     (case evaluateUnaryOperator operator (tr_value v1) of
                        None \<Rightarrow> returns () s1
                      | Some result \<Rightarrow>
                          (case convertType result resultType of
                             None \<Rightarrow>
                               fatalTypeError 3667 loc
                                 ''Arithmetic error when computing constant value.'' s1
                           | Some convertedValue \<Rightarrow>
                               returns () (cache i (Some convertedValue) s1))))))"

definition endVisitBinaryOperation ::
  "(Expression \<Rightarrow> ConstantEvaluator \<Rightarrow> TypedRational option evalResult)
   \<Rightarrow> Surroundings \<Rightarrow> ASTNodeRef \<Rightarrow> SourceLocation \<Rightarrow> Token \<Rightarrow> Expression \<Rightarrow> Expression
   \<Rightarrow> ConstantEvaluator \<Rightarrow> unit evalResult" where
  "endVisitBinaryOperation evaluate env i loc operator l r s =
     thenDo (evaluate l s) (\<lambda>left s1.
       thenDo (evaluate r s1) (\<lambda>right s2.
         case left of
           None \<Rightarrow> returns () s2
         | Some left0 \<Rightarrow>
             (case right of
                None \<Rightarrow> returns () s2
              | Some right0 \<Rightarrow>
                  if isCompareOp operator then returns () s2
                  else
                    (case binaryOperatorResult env (tr_type left0) operator (tr_type right0) of
                       None \<Rightarrow>
                         fatalTypeError 6020 loc
                           (''Operator '' @ tokenToString env operator
                              @ '' not compatible with types ''
                              @ typeToString env (tr_type left0) @ '' and ''
                              @ typeToString env (tr_type right0)) s2
                     | Some resultType \<Rightarrow>
                         (case convertTypedValue (Some left0) resultType of
                            None \<Rightarrow> returns () s2
                          | Some left1 \<Rightarrow>
                              (case convertTypedValue (Some right0) resultType of
                                 None \<Rightarrow> returns () s2
                               | Some right1 \<Rightarrow>
                                   (case evaluateBinaryOperator (precisionGuardBaseX env)
                                           operator (tr_value left1) (tr_value right1) of
                                      Inl f \<Rightarrow> Some (Inl f, s2)
                                    | Inr None \<Rightarrow> returns () s2
                                    | Inr (Some v) \<Rightarrow>
                                        (case convertType v resultType of
                                           None \<Rightarrow>
                                             fatalTypeError 2643 loc
                                               ''Arithmetic error when computing constant value.'' s2
                                         | Some convertedValue \<Rightarrow>
                                             returns () (cache i (Some convertedValue) s2)))))))))"

definition endVisitBody ::
  "(Expression \<Rightarrow> ConstantEvaluator \<Rightarrow> TypedRational option evalResult)
   \<Rightarrow> (ASTNodeRef \<Rightarrow> ConstantEvaluator \<Rightarrow> TypedRational option evalResult)
   \<Rightarrow> Surroundings \<Rightarrow> Expression \<Rightarrow> ConstantEvaluator \<Rightarrow> unit evalResult" where
  "endVisitBody evaluate evaluateDecl env e s =
     (case e of
        UnaryOperation i loc operator sub \<Rightarrow>
          endVisitUnaryOperation evaluate env i loc operator sub s
      | BinaryOperation i loc operator l r \<Rightarrow>
          endVisitBinaryOperation evaluate env i loc operator l r s
      | Literal i literalType \<Rightarrow>
          (case literalType of
             Some t \<Rightarrow> returns () (cache i (constantToTypedValue t) s)
           | None \<Rightarrow> returns () s)
      | Identifier i referencedDeclaration \<Rightarrow>
          (case referencedDeclaration of
             Some variableDeclaration \<Rightarrow>
               if vd_isConstant (declarationAt env variableDeclaration) then
                 thenDo (evaluateDecl variableDeclaration s) (\<lambda>v s1. returns () (cache i v s1))
               else returns () s
           | None \<Rightarrow> returns () s)
      | TupleExpression i components \<Rightarrow>
          (case components of
             [c] \<Rightarrow> thenDo (evaluate c s) (\<lambda>v s1. returns () (cache i v s1))
           | _ \<Rightarrow> returns () s)
      | OtherExpression i \<Rightarrow> returns () s)"

text \<open>The functions proper. The first argument is the fuel.\<close>

fun evaluateDeclaration ::
    "nat \<Rightarrow> Surroundings \<Rightarrow> ASTNodeRef \<Rightarrow> ConstantEvaluator \<Rightarrow> TypedRational option evalResult"
  and evaluateExpression ::
    "nat \<Rightarrow> Surroundings \<Rightarrow> Expression \<Rightarrow> ConstantEvaluator \<Rightarrow> TypedRational option evalResult"
  and accept :: "nat \<Rightarrow> Surroundings \<Rightarrow> Expression \<Rightarrow> ConstantEvaluator \<Rightarrow> unit evalResult"
  and acceptAll :: "nat \<Rightarrow> Surroundings \<Rightarrow> Expression list \<Rightarrow> ConstantEvaluator \<Rightarrow> unit evalResult"
  and endVisit :: "nat \<Rightarrow> Surroundings \<Rightarrow> Expression \<Rightarrow> ConstantEvaluator \<Rightarrow> unit evalResult"
where
  "evaluateDeclaration 0 env node s = None"
| "evaluateDeclaration (Suc n) env node s =
     evaluateDeclarationBody (\<lambda>e s'. evaluateExpression n env e s') env node s"
| "evaluateExpression 0 env e s = None"
| "evaluateExpression (Suc n) env e s =
     evaluateExpressionBody (\<lambda>e' s'. accept n env e' s') e s"
| "accept 0 env e s = None"
| "accept (Suc n) env e s =
     acceptBody (\<lambda>e' s'. accept n env e' s') (\<lambda>es s'. acceptAll n env es s')
       (\<lambda>e' s'. endVisit n env e' s') e s"
| "acceptAll 0 env es s = None"
| "acceptAll (Suc n) env [] s = returns () s"
| "acceptAll (Suc n) env (e # es) s =
     thenDo (accept n env e s) (\<lambda>u s1. acceptAll n env es s1)"
| "endVisit 0 env e s = None"
| "endVisit (Suc n) env e s =
     endVisitBody (\<lambda>e' s'. evaluateExpression n env e' s')
       (\<lambda>d s'. evaluateDeclaration n env d s') env e s"

section \<open>The depth counter and the end of an evaluation\<close>

text \<open>
  The report of the depth check: the last report of the evaluator is the fatal type
  error 5210.
\<close>

definition cyclicReported :: "ConstantEvaluator \<Rightarrow> bool" where
  "cyclicReported s =
     (case rev (m_errorReporter s) of
        [] \<Rightarrow> False
      | d # ds \<Rightarrow> severity d = FatalTypeError \<and> errorId d = 5210
          \<and> message d = ''Cyclic constant definition (or maximum recursion depth exhausted).'')"

definition cyclicDefinition :: "Surroundings \<Rightarrow> ASTNodeRef \<Rightarrow> Diagnostic" where
  "cyclicDefinition env d =
     \<lparr>severity = FatalTypeError, errorId = 5210,
       diag_location = vd_location (declarationAt env d), secondary = [],
       message = ''Cyclic constant definition (or maximum recursion depth exhausted).''\<rparr>"

text \<open>
  What a finished call leaves behind: it has a result within its fuel; a call that
  returns a value leaves the counter as it found it; a call that leaves by an exception
  from a counter of at most 32 leaves the counter at most 32, or at 33 with the fatal
  error of the depth check as the last report.
\<close>

definition finishes :: "'a evalResult \<Rightarrow> ConstantEvaluator \<Rightarrow> bool" where
  "finishes r s =
     (case r of
        None \<Rightarrow> False
      | Some (Inl f, s') \<Rightarrow>
          32 < m_depth s \<or> m_depth s' \<le> 32
          \<or> (m_depth s' = 33 \<and> f = FatalError \<and> cyclicReported s')
      | Some (Inr v, s') \<Rightarrow> m_depth s' = m_depth s)"

text \<open>
  A bound on the calls of an evaluation: \<open>fuelFor env b e\<close> calls suffice for the
  expression \<open>e\<close> when the counter may still be incremented \<open>b\<close> times, and
  \<open>fuelForDeclaration env b d\<close> calls for the declaration \<open>d\<close>.
\<close>

fun fuelFor :: "Surroundings \<Rightarrow> nat \<Rightarrow> Expression \<Rightarrow> nat" where
  "fuelFor env b (BinaryOperation i loc operator l r) = 5 + fuelFor env b l + fuelFor env b r"
| "fuelFor env b (UnaryOperation i loc operator sub) = 4 + fuelFor env b sub"
| "fuelFor env b (Literal i t) = 3"
| "fuelFor env 0 (Identifier i d) = 4"
| "fuelFor env (Suc b) (Identifier i d) =
     (case d of
        None \<Rightarrow> 4
      | Some variableDeclaration \<Rightarrow>
          (case vd_value (declarationAt env variableDeclaration) of
             None \<Rightarrow> 4
           | Some initialValue \<Rightarrow> 4 + fuelFor env b initialValue))"
| "fuelFor env b (TupleExpression i components) =
     3 + length components + sum_list (map (fuelFor env b) components)"
| "fuelFor env b (OtherExpression i) = 3"

definition fuelForDeclaration :: "Surroundings \<Rightarrow> nat \<Rightarrow> ASTNodeRef \<Rightarrow> nat" where
  "fuelForDeclaration env b d =
     (case vd_value (declarationAt env d) of
        None \<Rightarrow> 1
      | Some initialValue \<Rightarrow> 1 + fuelFor env (b - 1) initialValue)"

fun subExpressions :: "Expression \<Rightarrow> Expression list" where
  "subExpressions (BinaryOperation i loc operator l r) = [l, r]"
| "subExpressions (UnaryOperation i loc operator sub) = [sub]"
| "subExpressions (TupleExpression i components) = components"
| "subExpressions e = []"

text \<open>
  A chain of constant-variable initializers: the declaration \<open>d\<close> and the declarations
  \<open>ds\<close> are constants with an initial value and a type that are not yet evaluated,
  and the initial value of each but the last is an identifier, not yet evaluated
  either, that refers to the next.
\<close>

definition isUnevaluatedConstant :: "Surroundings \<Rightarrow> ConstantEvaluator \<Rightarrow> ASTNodeRef \<Rightarrow> bool" where
  "isUnevaluatedConstant env s d =
     (m_values s d = None \<and> vd_isConstant (declarationAt env d)
      \<and> vd_value (declarationAt env d) \<noteq> None \<and> vd_type (declarationAt env d) \<noteq> None)"

fun referenceChain ::
    "Surroundings \<Rightarrow> ConstantEvaluator \<Rightarrow> ASTNodeRef \<Rightarrow> ASTNodeRef list \<Rightarrow> bool" where
  "referenceChain env s d [] = isUnevaluatedConstant env s d"
| "referenceChain env s d (d' # ds) =
     (isUnevaluatedConstant env s d
      \<and> (case vd_value (declarationAt env d) of
            Some (Identifier i (Some r)) \<Rightarrow> r = d' \<and> m_values s i = None
          | _ \<Rightarrow> False)
      \<and> referenceChain env s d' ds)"

text \<open>
  Two programs: \<open>const a = b; const b = a;\<close>, with \<open>a\<close> the declaration 0 and
  \<open>b\<close> the declaration 1, and the chain of the constants 0 to 40 where each constant
  below 40 is defined as the next one and the constant 40 is the literal 5.
\<close>

definition cyclicConstants :: Surroundings where
  "cyclicConstants =
     \<lparr>declarationAt = (\<lambda>d.
        if d = 0 then
          \<lparr>vd_isConstant = True, vd_value = Some (Identifier 10 (Some 1)),
            vd_type = Some (IntegerType 0 255), vd_location = (0, 20)\<rparr>
        else
          \<lparr>vd_isConstant = True, vd_value = Some (Identifier 11 (Some 0)),
            vd_type = Some (IntegerType 0 255), vd_location = (21, 41)\<rparr>),
      binaryOperatorResult = (\<lambda>l operator r. None),
      unaryOperatorResult = (\<lambda>t operator. None),
      precisionGuardBaseX = (\<lambda>mantissa base e. True),
      tokenToString = (\<lambda>operator. []),
      typeToString = (\<lambda>t. [])\<rparr>"

definition deepConstants :: Surroundings where
  "deepConstants =
     \<lparr>declarationAt = (\<lambda>d.
        if d < 40 then
          \<lparr>vd_isConstant = True, vd_value = Some (Identifier (100 + d) (Some (Suc d))),
            vd_type = Some (IntegerType 0 255), vd_location = (10 * int d, 10 * int d + 9)\<rparr>
        else
          \<lparr>vd_isConstant = True, vd_value = Some (Literal 200 (Some (RationalNumberType 5))),
            vd_type = Some (IntegerType 0 255), vd_location = (400, 409)\<rparr>),
      binaryOperatorResult = (\<lambda>l operator r. None),
      unaryOperatorResult = (\<lambda>t operator. None),
      precisionGuardBaseX = (\<lambda>mantissa base e. True),
      tokenToString = (\<lambda>operator. []),
      typeToString = (\<lambda>t. [])\<rparr>"


section \<open>Auxiliary facts about fractions and the most significant bit\<close>

lemma numerator_of_int: "numerator (of_int k) = k"
  by (simp add: numerator_def quotient_of_int)

lemma denominator_of_int: "denominator (of_int k) = 1"
  by (simp add: denominator_def quotient_of_int)

lemma denominator_pos: "denominator r > 0"
  by (simp add: denominator_def quotient_of_denom_pos')

lemma rational_of_parts: "r = Fract (numerator r) (denominator r)"
  by (simp add: numerator_def denominator_def)

lemma integral_rational: "denominator r = 1 \<Longrightarrow> r = of_int (numerator r)"
  using rational_of_parts [of r] by (simp add: Fract_of_int_eq)

lemma numerator_zero_iff: "numerator r = 0 \<longleftrightarrow> r = 0"
proof
  assume "numerator r = 0"
  then show "r = 0" using rational_of_parts [of r] by (simp add: rat_number_collapse)
next
  assume "r = 0"
  then show "numerator r = 0" by (simp add: numerator_def)
qed

lemma msb_nat_bounds: "0 < n \<Longrightarrow> 2 ^ msb_nat n \<le> n \<and> n < 2 ^ (msb_nat n + 1)"
proof (induction n rule: msb_nat.induct)
  case (1 n)
  show ?case
  proof (cases "n \<le> 1")
    case True
    with 1 show ?thesis by (simp add: msb_nat.simps [of n])
  next
    case False
    then have "0 < n div 2" by simp
    with 1 False have "2 ^ msb_nat (n div 2) \<le> n div 2 \<and> n div 2 < 2 ^ (msb_nat (n div 2) + 1)"
      by simp
    with False show ?thesis by (simp add: msb_nat.simps [of n]) linarith
  qed
qed

lemma msb_nat_unique: "2 ^ k \<le> n \<Longrightarrow> n < 2 ^ (k + 1) \<Longrightarrow> msb_nat n = k"
proof -
  assume a: "2 ^ k \<le> n" "n < 2 ^ (k + 1)"
  have "(0::nat) < 2 ^ k" by simp
  with a have pos: "0 < n" by linarith
  from msb_nat_bounds [OF pos] have b: "2 ^ msb_nat n \<le> n" "n < 2 ^ (msb_nat n + 1)" by simp_all
  have "(2::nat) ^ k < 2 ^ (msb_nat n + 1)" using a b by linarith
  then have "k < msb_nat n + 1" by (rule power_less_imp_less_exp [rotated]) simp
  moreover have "(2::nat) ^ msb_nat n < 2 ^ (k + 1)" using a b by linarith
  then have "msb_nat n < k + 1" by (rule power_less_imp_less_exp [rotated]) simp
  ultimately show ?thesis by simp
qed

lemma msb_bounds: "0 < b \<Longrightarrow> 2 ^ msb b \<le> b \<and> b < 2 ^ (msb b + 1)"
proof -
  assume pos: "0 < b"
  define n where "n = nat b"
  with pos have b: "b = int n" and n: "0 < n" by simp_all
  from msb_nat_bounds [OF n] have "int (2 ^ msb_nat n) \<le> int n \<and> int n < int (2 ^ (msb_nat n + 1))"
    by (simp only: of_nat_le_iff of_nat_less_iff)
  then show ?thesis by (simp add: msb_def b)
qed

lemma msb_unique: "2 ^ k \<le> b \<Longrightarrow> b < 2 ^ (k + 1) \<Longrightarrow> msb b = k"
proof -
  assume a: "2 ^ k \<le> b" "b < 2 ^ (k + 1)"
  have "(0::int) < 2 ^ k" by simp
  with a have pos: "0 < b" by linarith
  define n where "n = nat b"
  with pos have b: "b = int n" by simp
  from a have "int (2 ^ k) \<le> int n" "int n < int (2 ^ (k + 1))" by (simp_all add: b)
  then have "2 ^ k \<le> n" "n < 2 ^ (k + 1)" by (simp_all only: of_nat_le_iff of_nat_less_iff)
  then have "msb_nat n = k" by (rule msb_nat_unique)
  then show ?thesis by (simp add: msb_def b)
qed

lemma fitsPrecisionExp_positive:
  assumes "0 < base"
  shows "fitsPrecisionExp base e =
           Inr (if base = 1 then True
                else if msb base > bitsMax then False
                else e * (int (msb base) + 1) \<le> int bitsMax)"
proof -
  from msb_bounds [OF assms] have b: "2 ^ msb base \<le> base" "base < 2 ^ (msb base + 1)" by simp_all
  have one: "msb base = 0 \<longleftrightarrow> base = 1"
  proof
    assume "msb base = 0" with b assms show "base = 1" by simp
  next
    assume "base = 1" then show "msb base = 0" using msb_unique [of 0 1] by simp
  qed
  show ?thesis using assms by (simp add: fitsPrecisionExp_def Let_def one)
qed

lemma fitsPrecisionExp_sound:
  assumes pos: "0 < base" and e: "0 \<le> e" and fits: "fitsPrecisionExp base e = Inr True"
  shows "base ^ nat e < 2 ^ bitsMax"
proof (cases "base = 1 \<or> e = 0")
  case True
  have "(1::int) < 2 ^ bitsMax" by (simp add: bitsMax_def)
  with True show ?thesis by auto
next
  case False
  then have e': "0 < nat e" using e by simp
  from fits False have m: "e * (int (msb base) + 1) \<le> int bitsMax"
    by (simp add: fitsPrecisionExp_positive [OF pos] split: if_splits)
  from msb_bounds [OF pos] have "base < 2 ^ (msb base + 1)" by simp
  with pos e' have "base ^ nat e < (2 ^ (msb base + 1)) ^ nat e"
    by (intro power_strict_mono) simp_all
  also have "\<dots> = 2 ^ ((msb base + 1) * nat e)" by (simp only: power_mult)
  also have "\<dots> \<le> (2::int) ^ bitsMax"
  proof (rule power_increasing)
    have "int ((msb base + 1) * nat e) = e * (int (msb base) + 1)" using e by (simp add: algebra_simps)
    with m show "(msb base + 1) * nat e \<le> bitsMax" by linarith
  qed simp
  finally show ?thesis .
qed

lemma truncated_quotient:
  "numerator v sdiv denominator v = (if 0 \<le> v then \<lfloor>v\<rfloor> else \<lceil>v\<rceil>)"
proof -
  define n d where "n = numerator v" and "d = denominator v"
  have d: "0 < d" by (simp add: d_def denominator_pos)
  have v: "v = Fract n d" unfolding n_def d_def by (rule rational_of_parts)
  have sign: "0 \<le> v \<longleftrightarrow> 0 \<le> n" by (simp add: v zero_le_Fract_iff d)
  have fl: "\<lfloor>v\<rfloor> = n div d" by (simp add: v floor_Fract)
  have "- v = Fract (- n) d" by (simp add: v)
  then have ce: "\<lceil>v\<rceil> = - ((- n) div d)" by (simp add: ceiling_def floor_Fract)
  show ?thesis
  proof (cases "0 \<le> n")
    case True
    with d have "n sdiv d = n div d" by (cases "n = 0") (simp_all add: signed_divide_int_def)
    with True sign fl show ?thesis by (simp add: n_def [symmetric] d_def [symmetric])
  next
    case False
    with d have "n sdiv d = - ((- n) div d)" by (simp add: signed_divide_int_def)
    with False sign ce show ?thesis by (simp add: n_def [symmetric] d_def [symmetric])
  qed
qed

lemma uint32_of_bigint:
  assumes "0 \<le> k" and "k \<le> uint32_max"
  shows "uint (word_of_int k :: uint32) = k" and "unat (word_of_int k :: uint32) = nat k"
proof -
  from assms have "k mod 2 ^ 32 = k" by (simp add: uint32_max_def)
  then show "uint (word_of_int k :: uint32) = k" by (simp add: uint_word_of_int take_bit_eq_mod)
  then show "unat (word_of_int k :: uint32) = nat k" by (simp add: unat_eq_nat_uint)
qed


lemma int_and_one_parity: "1 - 2 * ((k::int) mod 2) = (if even k then 1 else - 1)"
  by (cases "even k") (simp_all add: odd_iff_mod_2_eq_one)

lemma abs_and_one: "1 - 2 * (\<bar>k\<bar> AND 1) = (if even (k::int) then 1 else - 1)"
  using int_and_one_parity [of "\<bar>k\<bar>"] by (simp add: and_one_eq)

lemma optimizedPow_is_power: "optimizedPow b w = b ^ unat w"
proof (cases "b = - 1")
  case True
  have "uint (w AND 1) = uint w mod 2"
    by (simp only: and_one_eq uint_mod) simp
  moreover have "even (uint w) \<longleftrightarrow> even (unat w)"
    by (simp only: uint_nat even_of_nat)
  ultimately have "1 - 2 * uint (w AND 1) = (if even (unat w) then 1 else - 1)"
    using int_and_one_parity [of "uint w"] by (simp only:)
  then show ?thesis using True
    by (simp only: optimizedPow_def minus_one_power_iff) simp
next
  case False
  then show ?thesis by (simp add: optimizedPow_def)
qed

lemma fitsPrecisionExp_abs:
  assumes "x \<noteq> 0"
  obtains b where "fitsPrecisionExp \<bar>x\<bar> e = Inr b"
  using assms by (simp add: fitsPrecisionExp_positive)

lemma evaluateExp_general:
  assumes rest: "denominator e = 1" "e \<noteq> 0" "base \<noteq> 0" "base \<noteq> 1" "base \<noteq> - 1"
    and k: "\<bar>numerator e\<bar> \<le> uint32_max"
  shows "evaluateExp base e = Inr
     (if fitsPrecisionExp \<bar>numerator base\<bar> \<bar>numerator e\<bar> = Inr False
          \<or> fitsPrecisionExp \<bar>denominator base\<bar> \<bar>numerator e\<bar> = Inr False then None
      else if numerator e \<ge> 0
        then Some (Fract (numerator base ^ nat \<bar>numerator e\<bar>) (denominator base ^ nat \<bar>numerator e\<bar>))
        else Some (Fract (denominator base ^ nat \<bar>numerator e\<bar>) (numerator base ^ nat \<bar>numerator e\<bar>)))"
proof -
  from rest have n: "numerator base \<noteq> 0" by (simp add: numerator_zero_iff)
  have d: "denominator base \<noteq> 0" using denominator_pos [of base] by simp
  have k0: "0 \<le> \<bar>numerator e\<bar>" by simp
  note w = uint32_of_bigint [OF k0 k]
  obtain b1 where b1: "fitsPrecisionExp \<bar>numerator base\<bar> \<bar>numerator e\<bar> = Inr b1"
    by (rule fitsPrecisionExp_abs [OF n])
  obtain b2 where b2: "fitsPrecisionExp \<bar>denominator base\<bar> \<bar>numerator e\<bar> = Inr b2"
    by (rule fitsPrecisionExp_abs [OF d])
  have ne: "numerator e \<noteq> 0" using rest by (simp add: numerator_zero_iff)
  have c1: "\<not> (denominator e \<noteq> 1)" "\<not> numerator e = 0" "\<not> (base = 0 \<or> base = 1)" "\<not> base = - 1"
    "\<not> \<bar>numerator e\<bar> > uint32_max"
    using rest k ne by simp_all
  have unfolded: "evaluateExp base e =
        (case (Inr b1 :: failure + bool) of
            Inl e \<Rightarrow> Inl e
          | Inr False \<Rightarrow> Inr None
          | Inr True \<Rightarrow>
              (case (Inr b2 :: failure + bool) of
                 Inl e \<Rightarrow> Inl e
               | Inr False \<Rightarrow> Inr None
               | Inr True \<Rightarrow>
                   if numerator e \<ge> 0 then Inr (Some (makeRational (numerator base ^ nat \<bar>numerator e\<bar>) (denominator base ^ nat \<bar>numerator e\<bar>)))
                      else Inr (Some (makeRational (denominator base ^ nat \<bar>numerator e\<bar>) (numerator base ^ nat \<bar>numerator e\<bar>)))))"
    unfolding evaluateExp_def Let_def
    apply (simp only: c1 if_False)
    apply (simp only: w b1 b2 optimizedPow_is_power)
    done
  show ?thesis
    unfolding unfolded b1 b2 makeRational_def
    by (cases b1; cases b2) simp_all
qed


lemma evaluateExp_special:
  "denominator e \<noteq> 1 \<Longrightarrow> evaluateExp base e = Inr None"
  "denominator e = 1 \<Longrightarrow> e = 0 \<Longrightarrow> evaluateExp base e = Inr (Some 1)"
  "denominator e = 1 \<Longrightarrow> e \<noteq> 0 \<Longrightarrow> base = 0 \<or> base = 1 \<Longrightarrow> evaluateExp base e = Inr (Some base)"
  "denominator e = 1 \<Longrightarrow> e \<noteq> 0 \<Longrightarrow> base = - 1 \<Longrightarrow>
     evaluateExp base e = Inr (Some (if even (numerator e) then 1 else - 1))"
  "denominator e = 1 \<Longrightarrow> e \<noteq> 0 \<Longrightarrow> base \<noteq> 0 \<Longrightarrow> base \<noteq> 1 \<Longrightarrow> base \<noteq> - 1 \<Longrightarrow>
     \<bar>numerator e\<bar> > uint32_max \<Longrightarrow> evaluateExp base e = Inr None"
proof -
  show "denominator e \<noteq> 1 \<Longrightarrow> evaluateExp base e = Inr None"
    by (simp add: evaluateExp_def)
  show "denominator e = 1 \<Longrightarrow> e = 0 \<Longrightarrow> evaluateExp base e = Inr (Some 1)"
    by (simp add: evaluateExp_def numerator_zero_iff)
  show "denominator e = 1 \<Longrightarrow> e \<noteq> 0 \<Longrightarrow> base = 0 \<or> base = 1 \<Longrightarrow> evaluateExp base e = Inr (Some base)"
    by (auto simp add: evaluateExp_def numerator_zero_iff)
  show "denominator e = 1 \<Longrightarrow> e \<noteq> 0 \<Longrightarrow> base = - 1 \<Longrightarrow>
     evaluateExp base e = Inr (Some (if even (numerator e) then 1 else - 1))"
    by (simp add: evaluateExp_def Let_def numerator_zero_iff abs_and_one
        del: of_int_diff of_int_mult)
  show "denominator e = 1 \<Longrightarrow> e \<noteq> 0 \<Longrightarrow> base \<noteq> 0 \<Longrightarrow> base \<noteq> 1 \<Longrightarrow> base \<noteq> - 1 \<Longrightarrow>
     \<bar>numerator e\<bar> > uint32_max \<Longrightarrow> evaluateExp base e = Inr None"
    by (simp add: evaluateExp_def Let_def numerator_zero_iff del: abs_le_iff)
qed

lemma numerator_0: "numerator 0 = 0" "denominator 0 = 1"
  by (simp_all add: numerator_def denominator_def)

lemma msb_shifted:
  assumes "0 < n"
  shows "k \<le> msb (n * 2 ^ k)"
proof -
  have pos: "0 < n * 2 ^ k" using assms by simp
  from msb_bounds [OF pos] have "n * 2 ^ k < 2 ^ (msb (n * 2 ^ k) + 1)" by simp
  moreover have "(2::int) ^ k \<le> n * 2 ^ k" using assms by simp
  ultimately have "(2::int) ^ k < 2 ^ (msb (n * 2 ^ k) + 1)" by linarith
  then have "k < msb (n * 2 ^ k) + 1" by (rule power_less_imp_less_exp [rotated]) simp
  then show ?thesis by simp
qed

lemma evaluateSAR_undoes_shift:
  assumes n: "0 < n" and k: "0 \<le> k" "k \<le> uint32_max"
  shows "evaluateSAR False (of_int (n * 2 ^ nat k)) (of_int k) = Some (of_int n)"
proof -
  note w = uint32_of_bigint [OF k]
  have nz: "n * 2 ^ nat k \<noteq> 0" using n by simp
  have "0 < n * 2 ^ nat k" using n by simp
  then have ng: "\<not> n * 2 ^ nat k < 0" by linarith
  have ab: "\<bar>n * 2 ^ nat k\<bar> = n * 2 ^ nat k" using n by (simp add: abs_mult)
  have dv: "(n * 2 ^ nat k) sdiv 2 ^ nat k = n"
    using n by (simp add: signed_divide_int_def sgn_mult abs_mult)
  have r: "\<not> (of_int k :: rat) < 0" "\<not> (of_int k :: rat) > of_int uint32_max"
    using k by simp_all
  show ?thesis
    unfolding evaluateSAR_def Let_def numerator_of_int
    by (simp only: r nz ng ab w dv if_False msb_shifted [OF n] not_less [symmetric] Fract_of_int_eq)
       (use msb_shifted [OF n, of "nat k"] in simp)
qed

lemma unassignedAfter_append:
  "unassignedAfter (xs @ ys) U = unassignedAfter ys (unassignedAfter xs U)"
  by (induction xs arbitrary: U) simp_all

lemma visitOccurrence_spec:
  "visitOccurrence r occ (U, F) =
     (unassignedStep occ U, if isUse (kind occ) \<and> varDeclaration occ \<in> U then insert r F else F)"
  by (cases "kind occ") (simp_all add: visitOccurrence_def unassignedStep_def isUse_def)

lemma replayOccurrences_spec:
  "replayOccurrences n i occs (U, F) =
     (unassignedAfter occs U,
      F \<union> {(n, i + j) | j. j < length occs \<and> isUse (kind (occs ! j))
              \<and> varDeclaration (occs ! j) \<in> unassignedAfter (take j occs) U})"
proof (induction occs arbitrary: i U F)
  case Nil
  show ?case by simp
next
  case (Cons occ rest)
  let ?U = "unassignedStep occ U"
  let ?rest = "{(n, Suc i + j) | j. j < length rest \<and> isUse (kind (rest ! j))
              \<and> varDeclaration (rest ! j) \<in> unassignedAfter (take j rest) ?U}"
  let ?all = "{(n, i + j) | j. j < length (occ # rest) \<and> isUse (kind ((occ # rest) ! j))
              \<and> varDeclaration ((occ # rest) ! j) \<in> unassignedAfter (take j (occ # rest)) U}"
  have split: "?all = (if isUse (kind occ) \<and> varDeclaration occ \<in> U then {(n, i)} else {}) \<union> ?rest"
  proof (rule set_eqI, rule iffI)
    fix r assume "r \<in> ?all"
    then obtain j where j: "r = (n, i + j)" "j < length (occ # rest)"
      "isUse (kind ((occ # rest) ! j))"
      "varDeclaration ((occ # rest) ! j) \<in> unassignedAfter (take j (occ # rest)) U" by blast
    show "r \<in> (if isUse (kind occ) \<and> varDeclaration occ \<in> U then {(n, i)} else {}) \<union> ?rest"
    proof (cases j)
      case 0
      with j show ?thesis by simp
    next
      case (Suc j')
      with j have "r \<in> ?rest" by simp
      then show ?thesis by blast
    qed
  next
    fix r assume r: "r \<in> (if isUse (kind occ) \<and> varDeclaration occ \<in> U then {(n, i)} else {}) \<union> ?rest"
    show "r \<in> ?all"
    proof (cases "r \<in> ?rest")
      case True
      then obtain j where j: "r = (n, Suc i + j)" "j < length rest" "isUse (kind (rest ! j))"
        "varDeclaration (rest ! j) \<in> unassignedAfter (take j rest) ?U" by blast
      then have "r = (n, i + Suc j) \<and> Suc j < length (occ # rest)
         \<and> isUse (kind ((occ # rest) ! Suc j))
         \<and> varDeclaration ((occ # rest) ! Suc j) \<in> unassignedAfter (take (Suc j) (occ # rest)) U"
        by simp
      then show ?thesis by blast
    next
      case False
      with r have "r \<in> (if isUse (kind occ) \<and> varDeclaration occ \<in> U then {(n, i)} else {})"
        by blast
      then have "r = (n, i)" "isUse (kind occ)" "varDeclaration occ \<in> U"
        by (simp_all split: if_splits)
      then have "r = (n, i + 0) \<and> 0 < length (occ # rest)
         \<and> isUse (kind ((occ # rest) ! 0))
         \<and> varDeclaration ((occ # rest) ! 0) \<in> unassignedAfter (take 0 (occ # rest)) U"
        by simp
      then show ?thesis by blast
    qed
  qed
  show ?case
    unfolding replayOccurrences.simps visitOccurrence_spec Cons.IH split
    by auto
qed


lemma unassignedAfter_snoc:
  "unassignedAfter (occs @ [occ]) U =
     (case kind occ of
        Declaration \<Rightarrow> insert (varDeclaration occ) (unassignedAfter occs U)
      | Assignment \<Rightarrow> unassignedAfter occs U - {varDeclaration occ}
      | Access \<Rightarrow> unassignedAfter occs U
      | Return \<Rightarrow> unassignedAfter occs U
      | InlineAssembly \<Rightarrow> unassignedAfter occs U)"
  by (cases "kind occ") (simp_all add: unassignedAfter_append unassignedStep_def)

lemma ordered_accesses:
  assumes "finite A"
  shows "set (uninitializedAccessesOrdered key cfg A) = A"
    and "distinct (uninitializedAccessesOrdered key cfg A)"
    and "sorted (map (\<lambda>r. key (occurrenceAt cfg r)) (uninitializedAccessesOrdered key cfg A))"
  using assms by (simp_all add: uninitializedAccessesOrdered_def)

lemma reportUninitializedAccess_cases:
  "reportUninitializedAccess emptyBody contractName occ this =
     (if storedInStorage (varDeclaration occ) \<or> storedInCallData (varDeclaration occ)
      then this\<lparr>m_errors := m_errors this @ [storagePointerError occ]\<rparr>
      else if \<not> emptyBody \<and> name (varDeclaration occ) = []
              \<and> varDeclaration occ \<notin> m_unassignedReturnVarsAlreadyWarnedFor this
      then this\<lparr>m_errors := m_errors this @ [unnamedReturnWarning contractName occ],
                 m_unassignedReturnVarsAlreadyWarnedFor :=
                   insert (varDeclaration occ) (m_unassignedReturnVarsAlreadyWarnedFor this)\<rparr>
      else this)"
  by (simp add: reportUninitializedAccess_def Let_def typeError_def warning_def
      storagePointerError_def unnamedReturnWarning_def)

lemma infoAt_update:
  "infoAt (nodeInfos(n \<mapsto> i)) m = (if m = n then i else infoAt nodeInfos m)"
  by (simp add: infoAt_def)

lemma infoAt_empty: "infoAt Map.empty m = emptyNodeInfo"
  by (simp add: infoAt_def)

lemma traverseNode_eq:
  "traverseNode cfg n nodeInfos =
     nodeInfos(n \<mapsto> (infoAt nodeInfos n)\<lparr>
       unassignedVariablesAtExit :=
         unassignedAfter (variableOccurrences (cfg n)) (unassignedVariablesAtEntry (infoAt nodeInfos n)),
       uninitializedVariableAccesses :=
         uninitializedVariableAccesses (infoAt nodeInfos n)
         \<union> {(n, j) | j. j < length (variableOccurrences (cfg n))
               \<and> isUse (kind (variableOccurrences (cfg n) ! j))
               \<and> varDeclaration (variableOccurrences (cfg n) ! j)
                   \<in> unassignedAfter (take j (variableOccurrences (cfg n)))
                       (unassignedVariablesAtEntry (infoAt nodeInfos n))}\<rparr>)"
  by (simp add: traverseNode_def Let_def replayOccurrences_spec)

lemma flagsOriginate_traverseNode:
  assumes "flagsOriginate cfg nodeInfos"
  shows "flagsOriginate cfg (traverseNode cfg n nodeInfos)"
proof -
  let ?new = "{(n, j) | j. j < length (variableOccurrences (cfg n))
               \<and> isUse (kind (variableOccurrences (cfg n) ! j))
               \<and> varDeclaration (variableOccurrences (cfg n) ! j)
                   \<in> unassignedAfter (take j (variableOccurrences (cfg n)))
                       (unassignedVariablesAtEntry (infoAt nodeInfos n))}"
  have "?new \<subseteq> (\<lambda>j. (n, j)) ` {..<length (variableOccurrences (cfg n))}" by auto
  then have fin: "finite ?new" by (rule finite_subset) simp
  have new: "(fst r, n) \<in> (exitEdges cfg)\<^sup>* \<and> snd r < length (variableOccurrences (cfg (fst r)))
      \<and> isUse (kind (occurrenceAt cfg r))" if "r \<in> ?new" for r
    using that by (auto simp add: occurrenceAt_def)
  show ?thesis
    unfolding flagsOriginate_def traverseNode_eq infoAt_update
    using assms fin new by (auto simp add: flagsOriginate_def)
qed

lemma flagsOriginate_propagateToExit:
  assumes "flagsOriginate cfg nodeInfos" and "exit \<in> set (exits (cfg currentNode))"
  shows "flagsOriginate cfg (fst (propagateToExit currentNode exit (nodeInfos, nodesToTraverse)))"
proof -
  have edge: "(currentNode, exit) \<in> exitEdges cfg" using assms(2) by (simp add: exitEdges_def)
  have fst_eq: "fst (propagateToExit currentNode exit (nodeInfos, nodesToTraverse)) =
      nodeInfos(exit \<mapsto> fst (propagateFrom (infoAt nodeInfos exit) (infoAt nodeInfos currentNode)))"
    by (simp add: propagateToExit_def Let_def split_beta)
  have acc: "uninitializedVariableAccesses (fst (propagateFrom a b)) =
      uninitializedVariableAccesses a \<union> uninitializedVariableAccesses b" for a b
    by (simp add: propagateFrom_def Let_def)
  have old: "finite (uninitializedVariableAccesses (infoAt nodeInfos m))"
    "r \<in> uninitializedVariableAccesses (infoAt nodeInfos m) \<Longrightarrow>
       (fst r, m) \<in> (exitEdges cfg)\<^sup>* \<and> snd r < length (variableOccurrences (cfg (fst r)))
       \<and> isUse (kind (occurrenceAt cfg r))" for m r
    using assms(1) by (simp_all add: flagsOriginate_def)
  show ?thesis
    unfolding flagsOriginate_def
  proof (intro allI conjI ballI)
    fix m
    show "finite (uninitializedVariableAccesses
        (infoAt (fst (propagateToExit currentNode exit (nodeInfos, nodesToTraverse))) m))"
      by (simp add: fst_eq infoAt_update acc old)
  next
    fix m r
    assume r: "r \<in> uninitializedVariableAccesses
        (infoAt (fst (propagateToExit currentNode exit (nodeInfos, nodesToTraverse))) m)"
    then consider (kept) "r \<in> uninitializedVariableAccesses (infoAt nodeInfos m)"
      | (moved) "m = exit" "r \<in> uninitializedVariableAccesses (infoAt nodeInfos currentNode)"
      by (auto simp add: fst_eq infoAt_update acc split: if_splits)
    then have "(fst r, m) \<in> (exitEdges cfg)\<^sup>* \<and> snd r < length (variableOccurrences (cfg (fst r)))
       \<and> isUse (kind (occurrenceAt cfg r))"
    proof cases
      case kept
      then show ?thesis by (rule old(2))
    next
      case moved
      from old(2) [OF moved(2)] edge moved(1) show ?thesis
        by (auto intro: rtrancl_into_rtrancl)
    qed
    then show "(fst r, m) \<in> (exitEdges cfg)\<^sup>*"
      and "snd r < length (variableOccurrences (cfg (fst r)))"
      and "isUse (kind (occurrenceAt cfg r))" by simp_all
  qed
qed

lemma flagsOriginate_exits:
  assumes "flagsOriginate cfg (fst st)" and "set es \<subseteq> set (exits (cfg currentNode))"
  shows "flagsOriginate cfg (fst (foldl (\<lambda>s exit. propagateToExit currentNode exit s) st es))"
  using assms
proof (induction es arbitrary: st)
  case Nil
  then show ?case by simp
next
  case (Cons e es)
  obtain nodeInfos work where st: "st = (nodeInfos, work)" by (cases st)
  from Cons.prems have "flagsOriginate cfg (fst (propagateToExit currentNode e st))"
    by (simp add: st flagsOriginate_propagateToExit)
  with Cons.IH [of "propagateToExit currentNode e st"] Cons.prems(2) show ?case by simp
qed

lemma flagsOriginate_traverseStep:
  assumes "flagsOriginate cfg (fst st)"
  shows "flagsOriginate cfg (fst (traverseStep cfg st))"
proof -
  obtain nodeInfos work where st: "st = (nodeInfos, work)" by (cases st)
  show ?thesis
    using assms
    by (simp add: st traverseStep_def Let_def flagsOriginate_exits flagsOriginate_traverseNode)
qed

lemma flagsOriginate_traverse:
  assumes "traverse cfg entry = Some nodeInfos"
  shows "flagsOriginate cfg nodeInfos"
proof -
  from assms obtain work where
    w: "while_option (\<lambda>(nodeInfos, nodesToTraverse). nodesToTraverse \<noteq> {})
          (traverseStep cfg) (Map.empty, {entry}) = Some (nodeInfos, work)"
    by (auto simp add: traverse_def)
  have "flagsOriginate cfg (fst (nodeInfos, work))"
  proof (rule while_option_rule [where P = "\<lambda>st. flagsOriginate cfg (fst st)", OF _ w])
    show "flagsOriginate cfg (fst (Map.empty, {entry}))"
      by (simp add: flagsOriginate_def infoAt_empty emptyNodeInfo_def)
  qed (rule flagsOriginate_traverseStep)
  then show ?thesis by simp
qed

lemma example_run:
  "checkUninitializedAccess (\<lambda>occ. decl_id (varDeclaration occ)) exampleFlow 0 3 False None newAnalyzer
     = Some newAnalyzer"
  by code_simp

lemma example_unreachable:
  "checkUnreachable exampleFlow 0 3 4 5 newAnalyzer =
     Some (newAnalyzer\<lparr>m_errors :=
       [\<lparr>severity = Warning, errorId = 5740, diag_location = (40, 60), secondary = [],
         message = ''Unreachable code.''\<rparr>],
       m_unreachableLocationsAlreadyWarnedFor := {(40, 60)}\<rparr>)"
  by code_simp


lemma report_appends:
  "\<exists>ds. m_errors (foldl (\<lambda>s r. reportUninitializedAccess emptyBody contractName (occurrenceAt cfg r) s) this rs)
          = m_errors this @ ds \<and> length ds \<le> length rs"
proof (induction rs arbitrary: this)
  case Nil
  show ?case by simp
next
  case (Cons r rs)
  let ?next = "reportUninitializedAccess emptyBody contractName (occurrenceAt cfg r) this"
  have "\<exists>d. m_errors ?next = m_errors this @ d \<and> length d \<le> 1"
    by (simp add: reportUninitializedAccess_cases)
  then obtain d where d: "m_errors ?next = m_errors this @ d" "length d \<le> 1" by blast
  from Cons.IH [of ?next] obtain ds where
    ds: "m_errors (foldl (\<lambda>s r. reportUninitializedAccess emptyBody contractName (occurrenceAt cfg r) s) ?next rs)
          = m_errors ?next @ ds" "length ds \<le> length rs" by blast
  show ?case
  proof (intro exI conjI)
    show "m_errors (foldl (\<lambda>s r. reportUninitializedAccess emptyBody contractName (occurrenceAt cfg r) s) this (r # rs))
          = m_errors this @ (d @ ds)" using d ds by simp
    show "length (d @ ds) \<le> length (r # rs)" using d ds by simp
  qed
qed

lemma reportUninitializedAccesses_appends:
  assumes "finite (uninitializedVariableAccesses exitInfo)"
  shows "\<exists>ds. m_errors (reportUninitializedAccesses key cfg emptyBody contractName exitInfo this)
          = m_errors this @ ds \<and> length ds \<le> card (uninitializedVariableAccesses exitInfo)"
proof -
  let ?A = "uninitializedVariableAccesses exitInfo"
  have len: "length (uninitializedAccessesOrdered key cfg ?A) = card ?A"
    using assms by (simp add: uninitializedAccessesOrdered_def)
  have fold: "reportUninitializedAccesses key cfg emptyBody contractName exitInfo this =
       foldl (\<lambda>s r. reportUninitializedAccess emptyBody contractName (occurrenceAt cfg r) s) this
         (uninitializedAccessesOrdered key cfg ?A)"
    by (simp add: reportUninitializedAccesses_def uninitializedAccessesOrdered_def)
  show ?thesis
    unfolding fold
    using report_appends [of emptyBody contractName cfg this "uninitializedAccessesOrdered key cfg ?A"]
    by (simp add: len)
qed

lemma breadthFirstSearch_alt:
  "breadthFirstSearch children visit init s0 =
     map_option (\<lambda>(queue, visited, s). (visited, s))
       (while_option (\<lambda>(queue, visited, s). queue \<noteq> []) (bfsStep children visit) (init, {}, s0))"
proof -
  have "bfsStep children visit = (\<lambda>(queue, visited, s).
             case queue of
               [] \<Rightarrow> (queue, visited, s)
             | v # queue' \<Rightarrow>
                 if v \<in> visited then (queue', visited, s)
                 else (queue' @ children v, insert v visited, visit v s))"
    by (rule ext) (simp add: bfsStep_def split_beta)
  then show ?thesis by (simp add: breadthFirstSearch_def)
qed

lemma bfsInvariant_init: "bfsInvariant children init (init, {}, s0)"
  by (auto simp add: bfsInvariant_def)

lemma bfsInvariant_step:
  assumes "bfsInvariant children init st" and "fst st \<noteq> []"
  shows "bfsInvariant children init (bfsStep children visit st)"
proof -
  obtain queue visited s where st: "st = (queue, visited, s)" by (cases st)
  with assms(2) obtain v queue' where q: "queue = v # queue'" by (cases queue) auto
  from assms(1) have
    a: "visited \<union> set queue \<subseteq> (childEdges children)\<^sup>* `` set init"
    and b: "set init \<subseteq> visited \<union> set queue"
    and c: "\<forall>w\<in>visited. set (children w) \<subseteq> visited \<union> set queue"
    by (simp_all add: bfsInvariant_def st)
  show ?thesis
  proof (cases "v \<in> visited")
    case True
    with a b c show ?thesis
      by (auto simp add: bfsInvariant_def bfsStep_def st q)
  next
    case False
    from a have v: "v \<in> (childEdges children)\<^sup>* `` set init" by (auto simp add: q)
    have kids: "set (children v) \<subseteq> (childEdges children)\<^sup>* `` set init"
    proof
      fix c assume "c \<in> set (children v)"
      then have "(v, c) \<in> childEdges children" by (simp add: childEdges_def)
      with v show "c \<in> (childEdges children)\<^sup>* `` set init"
        by (auto intro: rtrancl_into_rtrancl)
    qed
    have a': "insert v visited \<union> set (queue' @ children v) \<subseteq> (childEdges children)\<^sup>* `` set init"
      using a kids v by (auto simp add: q)
    have b': "set init \<subseteq> insert v visited \<union> set (queue' @ children v)"
      using b by (auto simp add: q)
    have c': "\<forall>w\<in>insert v visited. set (children w) \<subseteq> insert v visited \<union> set (queue' @ children v)"
      using c by (auto simp add: q)
    from False a' b' c' show ?thesis
      by (simp add: bfsInvariant_def bfsStep_def st q)
  qed
qed

lemma bfs_closed_reaches:
  assumes "set init \<subseteq> V" and "\<forall>v\<in>V. set (children v) \<subseteq> V"
  shows "(childEdges children)\<^sup>* `` set init \<subseteq> V"
proof
  fix x assume "x \<in> (childEdges children)\<^sup>* `` set init"
  then obtain i where i: "i \<in> set init" and p: "(i, x) \<in> (childEdges children)\<^sup>*" by blast
  from p show "x \<in> V"
  proof (induction rule: rtrancl_induct)
    case base
    from i assms(1) show ?case by blast
  next
    case (step y z)
    then show ?case using assms(2) by (auto simp add: childEdges_def)
  qed
qed

lemma breadthFirstSearch_visited:
  assumes "breadthFirstSearch children visit init s0 = Some (visited, s)"
  shows "visited = (childEdges children)\<^sup>* `` set init"
proof -
  from assms obtain queue where
    w: "while_option (\<lambda>(queue, visited, s). queue \<noteq> []) (bfsStep children visit) (init, {}, s0)
          = Some (queue, visited, s)"
    by (auto simp add: breadthFirstSearch_alt)
  from while_option_stop [OF w] have empty: "queue = []" by simp
  have "bfsInvariant children init (queue, visited, s)"
  proof (rule while_option_rule [where P = "bfsInvariant children init", OF _ w])
    show "bfsInvariant children init (init, {}, s0)" by (rule bfsInvariant_init)
  next
    fix st :: "'a list \<times> 'a set \<times> 'b"
    assume "bfsInvariant children init st" and "case st of (queue, visited, s) \<Rightarrow> queue \<noteq> []"
    then show "bfsInvariant children init (bfsStep children visit st)"
      by (intro bfsInvariant_step) (auto simp add: split_beta)
  qed
  with empty have
    a: "visited \<subseteq> (childEdges children)\<^sup>* `` set init"
    and b: "set init \<subseteq> visited"
    and c: "\<forall>v\<in>visited. set (children v) \<subseteq> visited"
    by (simp_all add: bfsInvariant_def)
  from bfs_closed_reaches [OF b c] a show ?thesis by blast
qed


lemma breadthFirstSearch_accumulates:
  assumes result: "breadthFirstSearch children visit init s0 = Some (visited, s)"
    and init: "I {} s0"
    and step: "\<And>v V s. v \<notin> V \<Longrightarrow> I V s \<Longrightarrow> I (insert v V) (visit v s)"
  shows "I visited s"
proof -
  from result obtain queue where
    w: "while_option (\<lambda>(queue, visited, s). queue \<noteq> []) (bfsStep children visit) (init, {}, s0)
          = Some (queue, visited, s)"
    by (auto simp add: breadthFirstSearch_alt)
  have "(\<lambda>st. I (fst (snd st)) (snd (snd st))) (queue, visited, s)"
  proof (rule while_option_rule [OF _ w])
    show "I (fst (snd (init, {}, s0))) (snd (snd (init, {}, s0)))" using init by simp
  next
    fix st :: "'a list \<times> 'a set \<times> 'b"
    assume inv: "I (fst (snd st)) (snd (snd st))"
      and "case st of (queue, visited, s) \<Rightarrow> queue \<noteq> []"
    obtain q V t where st: "st = (q, V, t)" by (cases st)
    show "I (fst (snd (bfsStep children visit st))) (snd (snd (bfsStep children visit st)))"
      using inv step by (cases q) (auto simp add: st bfsStep_def)
  qed
  then show ?thesis by simp
qed

lemma bfsMeasure_step:
  assumes fin: "finite N" and N: "N = (childEdges children)\<^sup>* `` set init"
    and inv: "bfsInvariant children init st" and ne: "fst st \<noteq> []"
  shows "bfsMeasure children N (bfsStep children visit st) < bfsMeasure children N st"
proof -
  obtain queue visited s where st: "st = (queue, visited, s)" by (cases st)
  with ne obtain v queue' where q: "queue = v # queue'" by (cases queue) auto
  show ?thesis
  proof (cases "v \<in> visited")
    case True
    then show ?thesis by (simp add: bfsMeasure_def bfsStep_def st q)
  next
    case False
    from inv have "v \<in> N" by (auto simp add: bfsInvariant_def st q N)
    with False have v: "v \<in> N - visited" by simp
    have fin': "finite (N - visited)" using fin by simp
    have eq: "N - insert v visited = (N - visited) - {v}" by blast
    have "(\<Sum>w\<in>N - visited. Suc (length (children w)))
        = Suc (length (children v)) + (\<Sum>w\<in>N - insert v visited. Suc (length (children w)))"
      unfolding eq by (rule sum.remove [OF fin' v])
    with False show ?thesis by (simp add: bfsMeasure_def bfsStep_def st q)
  qed
qed

lemma breadthFirstSearch_terminates:
  assumes "finite ((childEdges children)\<^sup>* `` set init)"
  shows "\<exists>visited s. breadthFirstSearch children visit init s0 = Some (visited, s)"
proof -
  let ?N = "(childEdges children)\<^sup>* `` set init"
  have "\<exists>t. while_option (\<lambda>(queue, visited, s). queue \<noteq> []) (bfsStep children visit) (init, {}, s0)
          = Some t"
  proof (rule measure_while_option_Some [where P = "bfsInvariant children init"
        and f = "bfsMeasure children ?N"])
    show "bfsInvariant children init (init, {}, s0)" by (rule bfsInvariant_init)
  next
    fix st :: "'a list \<times> 'a set \<times> 'b"
    assume inv: "bfsInvariant children init st"
      and b: "case st of (queue, visited, s) \<Rightarrow> queue \<noteq> []"
    from b have ne: "fst st \<noteq> []" by (simp add: split_beta)
    show "bfsInvariant children init (bfsStep children visit st)
        \<and> bfsMeasure children ?N (bfsStep children visit st) < bfsMeasure children ?N st"
      using bfsInvariant_step [OF inv ne] bfsMeasure_step [OF assms refl inv ne] by simp
  qed
  then obtain t where "while_option (\<lambda>(queue, visited, s). queue \<noteq> [])
      (bfsStep children visit) (init, {}, s0) = Some t" ..
  then show ?thesis by (cases t) (simp add: breadthFirstSearch_alt)
qed

lemma exitEdges_childEdges: "exitEdges cfg = childEdges (\<lambda>node. exits (cfg node))"
  by (simp add: exitEdges_def childEdges_def)

lemma entryEdges_childEdges: "entryEdges cfg = childEdges (\<lambda>node. entries (cfg node))"
  by (simp add: entryEdges_def childEdges_def)

lemma mergeAndWarn_eq:
  "mergeAndWarn loc rest this = foldl (\<lambda>s m. warnUnreachable m s) this (mergeRanges (loc # rest))"
  by (induction rest arbitrary: loc this) simp_all

lemma reportUnreachable_eq:
  "reportUnreachable U this =
     foldl (\<lambda>s m. warnUnreachable m s) this (mergeRanges (sorted_list_of_set U))"
  by (simp add: reportUnreachable_def mergeAndWarn_eq split: list.split)

lemma warnUnreachable_cases:
  "warnUnreachable m s =
     (if m \<in> m_unreachableLocationsAlreadyWarnedFor s then s
      else s\<lparr>m_errors := m_errors s @
                [\<lparr>severity = Warning, errorId = 5740, diag_location = m, secondary = [],
                  message = ''Unreachable code.''\<rparr>],
              m_unreachableLocationsAlreadyWarnedFor :=
                insert m (m_unreachableLocationsAlreadyWarnedFor s)\<rparr>)"
  by (simp add: warnUnreachable_def warning_def)

lemma warned_after_warnings:
  "m_unreachableLocationsAlreadyWarnedFor (foldl (\<lambda>s m. warnUnreachable m s) this ms)
     = m_unreachableLocationsAlreadyWarnedFor this \<union> set ms"
  by (induction ms arbitrary: this) (auto simp add: warnUnreachable_cases)

lemma warnings_already_given:
  "set ms \<subseteq> m_unreachableLocationsAlreadyWarnedFor this \<Longrightarrow>
     foldl (\<lambda>s m. warnUnreachable m s) this ms = this"
  by (induction ms arbitrary: this) (simp_all add: warnUnreachable_cases)

lemma reportUnreachable_again:
  "reportUnreachable U (reportUnreachable U this) = reportUnreachable U this"
  unfolding reportUnreachable_eq
  by (rule warnings_already_given) (simp add: warned_after_warnings)

lemma checkUnreachable_result:
  assumes fin1: "finite ((exitEdges cfg)\<^sup>* `` {entry})"
    and fin2: "finite ((entryEdges cfg)\<^sup>* `` {exit, revert, transactionReturn})"
  shows "checkUnreachable cfg entry exit revert transactionReturn this =
     Some (reportUnreachable (unreachableLocations cfg entry exit revert transactionReturn) this)"
proof -
  from fin1 have "finite ((childEdges (\<lambda>node. exits (cfg node)))\<^sup>* `` set [entry])"
    by (simp add: exitEdges_childEdges)
  from breadthFirstSearch_terminates [OF this, of "\<lambda>node u. u" "()"]
  obtain reachable u where
    f: "breadthFirstSearch (\<lambda>node. exits (cfg node)) (\<lambda>node u. u) [entry] () = Some (reachable, u)"
    by blast
  from breadthFirstSearch_visited [OF f]
  have reach: "reachable = (exitEdges cfg)\<^sup>* `` {entry}" by (simp add: exitEdges_childEdges)
  from fin2 have
    "finite ((childEdges (\<lambda>node. entries (cfg node)))\<^sup>* `` set [exit, revert, transactionReturn])"
    by (simp add: entryEdges_childEdges)
  from breadthFirstSearch_terminates [OF this, of "recordUnreachable cfg reachable" "{}"]
  obtain visited unreachable where
    b: "breadthFirstSearch (\<lambda>node. entries (cfg node)) (recordUnreachable cfg reachable)
          [exit, revert, transactionReturn] {} = Some (visited, unreachable)"
    by blast
  from breadthFirstSearch_visited [OF b]
  have vis: "visited = (entryEdges cfg)\<^sup>* `` {exit, revert, transactionReturn}"
    by (simp add: entryEdges_childEdges)
  have "unreachable = {loc. \<exists>n\<in>visited. n \<notin> reachable \<and> location (cfg n) = Some loc}"
  proof (rule breadthFirstSearch_accumulates
      [OF b, where I = "\<lambda>V U. U = {loc. \<exists>n\<in>V. n \<notin> reachable \<and> location (cfg n) = Some loc}"])
    show "{} = {loc. \<exists>n\<in>{}. n \<notin> reachable \<and> location (cfg n) = Some loc}" by simp
  next
    fix v V and U :: "SourceLocation set"
    assume "U = {loc. \<exists>n\<in>V. n \<notin> reachable \<and> location (cfg n) = Some loc}"
    then show "recordUnreachable cfg reachable v U
        = {loc. \<exists>n\<in>insert v V. n \<notin> reachable \<and> location (cfg n) = Some loc}"
      by (auto simp add: recordUnreachable_def split: option.splits)
  qed
  then have "unreachable = unreachableLocations cfg entry exit revert transactionReturn"
    by (auto simp add: unreachableLocations_def vis reach)
  with f b show ?thesis by (simp add: checkUnreachable_def)
qed


lemma finite_unreachableLocations:
  assumes "finite ((entryEdges cfg)\<^sup>* `` {exit, revert, transactionReturn})"
  shows "finite (unreachableLocations cfg entry exit revert transactionReturn)"
proof -
  have "unreachableLocations cfg entry exit revert transactionReturn
      \<subseteq> (\<lambda>n. the (location (cfg n))) ` ((entryEdges cfg)\<^sup>* `` {exit, revert, transactionReturn})"
    by (force simp add: unreachableLocations_def)
  with assms show ?thesis by (rule finite_surj)
qed

lemma example_forward: "(exitEdges exampleFlow)\<^sup>* `` {0} \<subseteq> {0, 1, 2, 3, 4}"
proof -
  have "(childEdges (\<lambda>node. exits (exampleFlow node)))\<^sup>* `` set [0] \<subseteq> {0, 1, 2, 3, 4}"
    by (rule bfs_closed_reaches) (simp_all add: exampleFlow_def)
  then show ?thesis by (simp add: exitEdges_childEdges)
qed

lemma example_backward: "(entryEdges exampleFlow)\<^sup>* `` {3, 4, 5} \<subseteq> {0, 1, 2, 3, 4, 5, 6, 7}"
proof -
  have "(childEdges (\<lambda>node. entries (exampleFlow node)))\<^sup>* `` set [3, 4, 5]
      \<subseteq> {0, 1, 2, 3, 4, 5, 6, 7}"
    by (rule bfs_closed_reaches) (simp_all add: exampleFlow_def)
  then show ?thesis by (simp add: entryEdges_childEdges)
qed

section \<open>Auxiliary facts about the dataflow loop and the warnings\<close>

lemma finite_allFacts: "finite R \<Longrightarrow> finite (allFacts cfg R)"
  by (simp add: allFacts_def declarationsIn_def occurrencesIn_def)

lemma facts_iff:
  "(n, Unassigned d) \<in> facts nodeInfos \<longleftrightarrow> d \<in> unassignedVariablesAtEntry (infoAt nodeInfos n)"
  "(n, Flagged r) \<in> facts nodeInfos \<longleftrightarrow> r \<in> uninitializedVariableAccesses (infoAt nodeInfos n)"
  "(n, Visited) \<in> facts nodeInfos \<longleftrightarrow> nodeInfos n \<noteq> None"
  by (auto simp add: facts_def)

lemma facts_subsetI:
  assumes "\<And>n. unassignedVariablesAtEntry (infoAt a n) \<subseteq> unassignedVariablesAtEntry (infoAt b n)"
    and "\<And>n. uninitializedVariableAccesses (infoAt a n) \<subseteq> uninitializedVariableAccesses (infoAt b n)"
    and "\<And>n. a n \<noteq> None \<Longrightarrow> b n \<noteq> None"
  shows "facts a \<subseteq> facts b"
proof
  fix x assume x: "x \<in> facts a"
  obtain n f where [simp]: "x = (n, f)" by (cases x)
  from x assms [of n] show "x \<in> facts b"
    by (cases f) (auto simp add: facts_iff)
qed

lemma unassignedAfter_subset:
  "unassignedAfter occs X \<subseteq> X \<union> varDeclaration ` set occs"
  by (induction occs arbitrary: X) (auto simp add: unassignedStep_def split: Kind.splits if_splits)

lemma traverseInvariant_iff:
  "traverseInvariant cfg R (nodeInfos, work) \<longleftrightarrow>
     work \<subseteq> R \<and> dom nodeInfos \<subseteq> R
     \<and> (\<forall>n. unassignedVariablesAtEntry (infoAt nodeInfos n) \<subseteq> declarationsIn cfg R
           \<and> uninitializedVariableAccesses (infoAt nodeInfos n) \<subseteq> occurrencesIn cfg R
           \<and> unassignedVariablesAtExit (infoAt nodeInfos n) \<subseteq> declarationsIn cfg R)"
  (is "?L \<longleftrightarrow> ?R")
proof
  assume l: ?L
  then have sub: "facts nodeInfos \<subseteq> allFacts cfg R" and w: "work \<subseteq> R"
    and ex: "\<And>n. unassignedVariablesAtExit (infoAt nodeInfos n) \<subseteq> declarationsIn cfg R"
    by (simp_all add: traverseInvariant_def)
  have "dom nodeInfos \<subseteq> R"
  proof
    fix n assume "n \<in> dom nodeInfos"
    then have "(n, Visited) \<in> facts nodeInfos" by (auto simp add: facts_iff)
    with sub show "n \<in> R" by (auto simp add: allFacts_def)
  qed
  moreover have "unassignedVariablesAtEntry (infoAt nodeInfos n) \<subseteq> declarationsIn cfg R" for n
  proof
    fix d assume "d \<in> unassignedVariablesAtEntry (infoAt nodeInfos n)"
    then have "(n, Unassigned d) \<in> facts nodeInfos" by (simp add: facts_iff)
    with sub show "d \<in> declarationsIn cfg R" by (auto simp add: allFacts_def)
  qed
  moreover have "uninitializedVariableAccesses (infoAt nodeInfos n) \<subseteq> occurrencesIn cfg R" for n
  proof
    fix r assume "r \<in> uninitializedVariableAccesses (infoAt nodeInfos n)"
    then have "(n, Flagged r) \<in> facts nodeInfos" by (simp add: facts_iff)
    with sub show "r \<in> occurrencesIn cfg R" by (auto simp add: allFacts_def)
  qed
  ultimately show ?R using w ex by simp
next
  assume r: ?R
  have none: "unassignedVariablesAtEntry (infoAt nodeInfos n) = {}"
    "uninitializedVariableAccesses (infoAt nodeInfos n) = {}" if "nodeInfos n = None" for n
    using that by (simp_all add: infoAt_def emptyNodeInfo_def)
  have "facts nodeInfos \<subseteq> allFacts cfg R"
  proof
    fix x assume x: "x \<in> facts nodeInfos"
    obtain n f where xf: "x = (n, f)" by (cases x)
    have "nodeInfos n \<noteq> None"
      using x none [of n] by (cases f) (auto simp add: xf facts_iff)
    with r have "n \<in> R" by auto
    moreover have "f \<in> Unassigned ` declarationsIn cfg R \<union> Flagged ` occurrencesIn cfg R \<union> {Visited}"
    proof (cases f)
      case (Unassigned d)
      with x have "d \<in> unassignedVariablesAtEntry (infoAt nodeInfos n)" by (simp add: xf facts_iff)
      with r have "d \<in> declarationsIn cfg R" by blast
      then show ?thesis by (simp add: Unassigned)
    next
      case (Flagged o')
      with x have "o' \<in> uninitializedVariableAccesses (infoAt nodeInfos n)" by (simp add: xf facts_iff)
      with r have "o' \<in> occurrencesIn cfg R" by blast
      then show ?thesis by (simp add: Flagged)
    next
      case Visited
      then show ?thesis by simp
    qed
    ultimately show "x \<in> allFacts cfg R" by (simp add: xf allFacts_def)
  qed
  with r show ?L by (simp add: traverseInvariant_def)
qed

lemma traverseNode_invariant:
  assumes "traverseInvariant cfg R (nodeInfos, work)" "n \<in> R" "work' \<subseteq> R"
  shows "traverseInvariant cfg R (traverseNode cfg n nodeInfos, work')"
proof -
  let ?occs = "variableOccurrences (cfg n)"
  from assms(2) have decl: "varDeclaration ` set ?occs \<subseteq> declarationsIn cfg R"
    by (auto simp add: declarationsIn_def)
  from assms(1) have entry: "unassignedVariablesAtEntry (infoAt nodeInfos n) \<subseteq> declarationsIn cfg R"
    by (simp add: traverseInvariant_iff)
  have "unassignedAfter ?occs (unassignedVariablesAtEntry (infoAt nodeInfos n)) \<subseteq> declarationsIn cfg R"
    using unassignedAfter_subset [of ?occs "unassignedVariablesAtEntry (infoAt nodeInfos n)"]
      decl entry by blast
  moreover have "{(n, j) | j. j < length ?occs \<and> P j} \<subseteq> occurrencesIn cfg R" for P
    using assms(2) by (auto simp add: occurrencesIn_def)
  ultimately show ?thesis
    using assms unfolding traverseInvariant_iff traverseNode_eq infoAt_update
    by (auto simp del: unassignedAfter.simps)
qed

lemma traverseNode_facts: "facts nodeInfos \<subseteq> facts (traverseNode cfg n nodeInfos)"
  by (rule facts_subsetI) (simp_all add: traverseNode_eq infoAt_update)

lemma propagateToExit_eq:
  "propagateToExit currentNode exit (nodeInfos, work) =
     (nodeInfos(exit \<mapsto> (infoAt nodeInfos exit)\<lparr>
        unassignedVariablesAtEntry :=
          unassignedVariablesAtEntry (infoAt nodeInfos exit)
          \<union> unassignedVariablesAtExit (infoAt nodeInfos currentNode),
        uninitializedVariableAccesses :=
          uninitializedVariableAccesses (infoAt nodeInfos exit)
          \<union> uninitializedVariableAccesses (infoAt nodeInfos currentNode)\<rparr>),
      if card (unassignedVariablesAtEntry (infoAt nodeInfos exit)
               \<union> unassignedVariablesAtExit (infoAt nodeInfos currentNode))
           > card (unassignedVariablesAtEntry (infoAt nodeInfos exit))
         \<or> card (uninitializedVariableAccesses (infoAt nodeInfos exit)
               \<union> uninitializedVariableAccesses (infoAt nodeInfos currentNode))
           > card (uninitializedVariableAccesses (infoAt nodeInfos exit))
         \<or> nodeInfos exit = None
      then insert exit work else work)"
  by (simp add: propagateToExit_def propagateFrom_def Let_def)

lemma propagateToExit_progress:
  assumes inv: "traverseInvariant cfg R (nodeInfos, work)" and exit: "exit \<in> R"
  shows "traverseInvariant cfg R (propagateToExit currentNode exit (nodeInfos, work))"
    and "facts nodeInfos \<subseteq> facts (fst (propagateToExit currentNode exit (nodeInfos, work)))"
    and "snd (propagateToExit currentNode exit (nodeInfos, work)) = work
      \<or> facts nodeInfos \<noteq> facts (fst (propagateToExit currentNode exit (nodeInfos, work)))"
proof -
  let ?st = "propagateToExit currentNode exit (nodeInfos, work)"
  let ?E = "unassignedVariablesAtEntry (infoAt nodeInfos exit)"
  let ?X = "unassignedVariablesAtExit (infoAt nodeInfos currentNode)"
  let ?A = "uninitializedVariableAccesses (infoAt nodeInfos exit)"
  let ?B = "uninitializedVariableAccesses (infoAt nodeInfos currentNode)"
  show "traverseInvariant cfg R ?st"
    using inv exit unfolding propagateToExit_eq traverseInvariant_iff infoAt_update
    by auto
  show sub: "facts nodeInfos \<subseteq> facts (fst ?st)"
    by (rule facts_subsetI) (auto simp add: propagateToExit_eq infoAt_update)
  show "snd ?st = work \<or> facts nodeInfos \<noteq> facts (fst ?st)"
  proof (cases "snd ?st = work")
    case False
    then consider (entry) "card (?E \<union> ?X) > card ?E" | (acc) "card (?A \<union> ?B) > card ?A"
      | (new) "nodeInfos exit = None"
      by (auto simp add: propagateToExit_eq split: if_splits)
    then have "facts nodeInfos \<noteq> facts (fst ?st)"
    proof cases
      case entry
      then have "?E \<union> ?X \<noteq> ?E" by auto
      then obtain d where "d \<in> ?X" "d \<notin> ?E" by blast
      then have "(exit, Unassigned d) \<in> facts (fst ?st)" "(exit, Unassigned d) \<notin> facts nodeInfos"
        by (simp_all add: facts_iff propagateToExit_eq infoAt_update)
      then show ?thesis by blast
    next
      case acc
      then have "?A \<union> ?B \<noteq> ?A" by auto
      then obtain r where "r \<in> ?B" "r \<notin> ?A" by blast
      then have "(exit, Flagged r) \<in> facts (fst ?st)" "(exit, Flagged r) \<notin> facts nodeInfos"
        by (simp_all add: facts_iff propagateToExit_eq infoAt_update)
      then show ?thesis by blast
    next
      case new
      then have "(exit, Visited) \<in> facts (fst ?st)" "(exit, Visited) \<notin> facts nodeInfos"
        by (simp_all add: facts_iff propagateToExit_eq)
      then show ?thesis by blast
    qed
    then show ?thesis ..
  qed simp
qed

lemma propagateToExits_progress:
  assumes "traverseInvariant cfg R st" "set es \<subseteq> R"
  shows "traverseInvariant cfg R (foldl (\<lambda>s exit. propagateToExit currentNode exit s) st es)
    \<and> facts (fst st) \<subseteq> facts (fst (foldl (\<lambda>s exit. propagateToExit currentNode exit s) st es))
    \<and> (snd (foldl (\<lambda>s exit. propagateToExit currentNode exit s) st es) = snd st
        \<or> facts (fst st) \<noteq> facts (fst (foldl (\<lambda>s exit. propagateToExit currentNode exit s) st es)))"
  using assms
proof (induction es arbitrary: st)
  case Nil
  then show ?case by simp
next
  case (Cons e es)
  obtain nodeInfos work where st: "st = (nodeInfos, work)" by (cases st)
  let ?st1 = "propagateToExit currentNode e st"
  let ?st2 = "foldl (\<lambda>s exit. propagateToExit currentNode exit s) ?st1 es"
  from Cons.prems have e: "e \<in> R" and es: "set es \<subseteq> R" by simp_all
  from Cons.prems(1) have inv: "traverseInvariant cfg R (nodeInfos, work)" by (simp add: st)
  note one = propagateToExit_progress [OF inv e, of currentNode, folded st]
  from Cons.IH [OF one(1) es]
  have two: "traverseInvariant cfg R ?st2" "facts (fst ?st1) \<subseteq> facts (fst ?st2)"
    "snd ?st2 = snd ?st1 \<or> facts (fst ?st1) \<noteq> facts (fst ?st2)" by simp_all
  from one(2) have sub1: "facts (fst st) \<subseteq> facts (fst ?st1)" by (simp add: st)
  from one(3) have alt1: "snd ?st1 = snd st \<or> facts (fst st) \<noteq> facts (fst ?st1)" by (simp add: st)
  from sub1 two(2) have "facts (fst st) \<subseteq> facts (fst ?st2)" by blast
  moreover from sub1 two(2) two(3) alt1
  have "snd ?st2 = snd st \<or> facts (fst st) \<noteq> facts (fst ?st2)" by auto
  ultimately show ?case using two(1) by simp
qed

lemma traverseStep_progress:
  assumes fin: "finite R" and closed: "\<And>n. n \<in> R \<Longrightarrow> set (exits (cfg n)) \<subseteq> R"
    and inv: "traverseInvariant cfg R st" and work: "snd st \<noteq> {}"
  shows "traverseInvariant cfg R (traverseStep cfg st)
    \<and> traverseMeasure cfg R (traverseStep cfg st) < traverseMeasure cfg R st"
proof -
  obtain nodeInfos work where st: "st = (nodeInfos, work)" by (cases st)
  from inv have sub: "work \<subseteq> R" by (simp add: st traverseInvariant_iff)
  with fin have finw: "finite work" by (rule rev_finite_subset)
  let ?cur = "Min work"
  from finw work have cur: "?cur \<in> work" by (simp add: st)
  with sub have curR: "?cur \<in> R" by blast
  let ?st1 = "(traverseNode cfg ?cur nodeInfos, work - {?cur})"
  let ?st2 = "foldl (\<lambda>s exit. propagateToExit ?cur exit s) ?st1 (exits (cfg ?cur))"
  have step: "traverseStep cfg st = ?st2" by (simp add: st traverseStep_def Let_def)
  from sub have "work - {?cur} \<subseteq> R" by blast
  from traverseNode_invariant [OF inv [unfolded st] curR this]
  have inv1: "traverseInvariant cfg R ?st1" .
  from propagateToExits_progress [OF inv1 closed [OF curR], of ?cur]
  have inv2: "traverseInvariant cfg R ?st2"
    and sub2: "facts (traverseNode cfg ?cur nodeInfos) \<subseteq> facts (fst ?st2)"
    and alt2: "snd ?st2 = work - {?cur} \<or> facts (traverseNode cfg ?cur nodeInfos) \<noteq> facts (fst ?st2)"
    by simp_all
  from traverseNode_facts [of nodeInfos cfg ?cur] sub2
  have mono: "facts nodeInfos \<subseteq> facts (fst ?st2)" by blast
  from inv2 have all2: "facts (fst ?st2) \<subseteq> allFacts cfg R" and w2: "snd ?st2 \<subseteq> R"
    by (simp_all add: traverseInvariant_def)
  note finU = finite_allFacts [OF fin, of cfg]
  have "traverseMeasure cfg R ?st2 < traverseMeasure cfg R st"
  proof (cases "facts nodeInfos = facts (fst ?st2)")
    case True
    with traverseNode_facts [of nodeInfos cfg ?cur] sub2
    have "facts (traverseNode cfg ?cur nodeInfos) = facts (fst ?st2)" by blast
    with alt2 have "snd ?st2 = work - {?cur}" by simp
    moreover from finw cur have "card (work - {?cur}) < card work"
      by (rule card_Diff1_less)
    ultimately show ?thesis by (simp add: traverseMeasure_def st True)
  next
    case False
    with mono have "facts nodeInfos \<subset> facts (fst ?st2)" by blast
    then have "allFacts cfg R - facts (fst ?st2) \<subset> allFacts cfg R - facts nodeInfos"
      using all2 by blast
    with finU have less: "card (allFacts cfg R - facts (fst ?st2)) < card (allFacts cfg R - facts nodeInfos)"
      by (intro psubset_card_mono) simp_all
    from w2 fin have "card (snd ?st2) \<le> card R" by (rule card_mono [rotated])
    then have "traverseMeasure cfg R ?st2
        < (card (allFacts cfg R - facts (fst ?st2)) + 1) * (card R + 1)"
      by (simp add: traverseMeasure_def)
    also from less have "\<dots> \<le> card (allFacts cfg R - facts nodeInfos) * (card R + 1)"
      by (intro mult_le_mono1) simp
    also have "\<dots> \<le> traverseMeasure cfg R st" by (simp add: traverseMeasure_def st)
    finally show ?thesis .
  qed
  with inv2 show ?thesis by (simp add: step)
qed

lemma reachableNodes_closed:
  "n \<in> reachableNodes cfg entry \<Longrightarrow> set (exits (cfg n)) \<subseteq> reachableNodes cfg entry"
  by (auto simp add: reachableNodes_def exitEdges_def intro: rtrancl_into_rtrancl)

lemma traverse_terminates:
  assumes "finite (reachableNodes cfg entry)"
  shows "\<exists>nodeInfos. traverse cfg entry = Some nodeInfos"
proof -
  let ?R = "reachableNodes cfg entry"
  have init: "traverseInvariant cfg ?R (Map.empty, {entry})"
    by (simp add: traverseInvariant_iff infoAt_empty emptyNodeInfo_def reachableNodes_def)
  have "\<exists>t. while_option (\<lambda>(nodeInfos, nodesToTraverse). nodesToTraverse \<noteq> {})
          (traverseStep cfg) (Map.empty, {entry}) = Some t"
  proof (rule measure_while_option_Some [where f = "traverseMeasure cfg ?R"])
    fix st :: "NodeInfos \<times> CFGNodeRef set"
    assume "traverseInvariant cfg ?R st"
      and "case st of (nodeInfos, nodesToTraverse) \<Rightarrow> nodesToTraverse \<noteq> {}"
    then show "traverseInvariant cfg ?R (traverseStep cfg st)
      \<and> traverseMeasure cfg ?R (traverseStep cfg st) < traverseMeasure cfg ?R st"
      by (intro traverseStep_progress assms reachableNodes_closed) (auto split: prod.splits)
  qed (rule init)
  then show ?thesis by (auto simp add: traverse_def)
qed

lemma warnedOnceEach_step:
  assumes "warnedOnceEach ds this"
  shows "\<exists>ds'. warnedOnceEach (ds @ ds') (reportUninitializedAccess emptyBody contractName occ this)"
proof -
  let ?d = "varDeclaration occ"
  consider (err) "storedInStorage ?d \<or> storedInCallData ?d"
    | (warn) "\<not> (storedInStorage ?d \<or> storedInCallData ?d)" "\<not> emptyBody" "name ?d = []"
        "?d \<notin> m_unassignedReturnVarsAlreadyWarnedFor this"
    | (none) "\<not> (storedInStorage ?d \<or> storedInCallData ?d)"
        "\<not> (\<not> emptyBody \<and> name ?d = [] \<and> ?d \<notin> m_unassignedReturnVarsAlreadyWarnedFor this)"
    by blast
  then show ?thesis
  proof cases
    case err
    with assms have "warnedOnceEach (ds @ []) (reportUninitializedAccess emptyBody contractName occ this)"
      by (simp add: reportUninitializedAccess_cases warnedOnceEach_def storagePointerError_def)
    then show ?thesis ..
  next
    case warn
    with assms have "warnedOnceEach (ds @ [?d]) (reportUninitializedAccess emptyBody contractName occ this)"
      by (simp add: reportUninitializedAccess_cases warnedOnceEach_def unnamedReturnWarning_def)
    then show ?thesis ..
  next
    case none
    with assms have "warnedOnceEach (ds @ []) (reportUninitializedAccess emptyBody contractName occ this)"
      by (auto simp add: reportUninitializedAccess_cases)
    then show ?thesis ..
  qed
qed

lemma warnedOnceEach_foldl:
  assumes "warnedOnceEach ds this"
  shows "\<exists>ds'. warnedOnceEach (ds @ ds')
    (foldl (\<lambda>s r. reportUninitializedAccess emptyBody contractName (occurrenceAt cfg r) s) this rs)"
  using assms
proof (induction rs arbitrary: ds this)
  case Nil
  then have "warnedOnceEach (ds @ []) this" by simp
  then show ?case by (simp del: append_Nil2) blast
next
  case (Cons r rs)
  from warnedOnceEach_step [OF Cons.prems, of emptyBody contractName "occurrenceAt cfg r"]
  obtain ds1 where "warnedOnceEach (ds @ ds1)
      (reportUninitializedAccess emptyBody contractName (occurrenceAt cfg r) this)" ..
  from Cons.IH [OF this] obtain ds2 where "warnedOnceEach ((ds @ ds1) @ ds2)
      (foldl (\<lambda>s r. reportUninitializedAccess emptyBody contractName (occurrenceAt cfg r) s)
        (reportUninitializedAccess emptyBody contractName (occurrenceAt cfg r) this) rs)" ..
  then have "warnedOnceEach (ds @ (ds1 @ ds2))
      (foldl (\<lambda>s r. reportUninitializedAccess emptyBody contractName (occurrenceAt cfg r) s) this (r # rs))"
    by simp
  then show ?case ..
qed

lemma warnedOnceEach_reportUninitializedAccesses:
  assumes "warnedOnceEach ds this"
  shows "\<exists>ds'. warnedOnceEach (ds @ ds')
    (reportUninitializedAccesses key cfg emptyBody contractName exitInfo this)"
proof (cases "uninitializedVariableAccesses exitInfo = {}")
  case True
  with assms have "warnedOnceEach (ds @ [])
      (reportUninitializedAccesses key cfg emptyBody contractName exitInfo this)"
    by (simp add: reportUninitializedAccesses_def)
  then show ?thesis ..
next
  case False
  with warnedOnceEach_foldl [OF assms] show ?thesis
    by (simp add: reportUninitializedAccesses_def)
qed

lemma warnedOnceEach_warnUnreachable:
  "warnedOnceEach ds this \<Longrightarrow> warnedOnceEach ds (warnUnreachable loc this)"
  by (simp add: warnedOnceEach_def warnUnreachable_cases)

lemma warnedOnceEach_reportUnreachable:
  "warnedOnceEach ds this \<Longrightarrow> warnedOnceEach ds (reportUnreachable U this)"
proof -
  have "warnedOnceEach ds this \<Longrightarrow> warnedOnceEach ds (foldl (\<lambda>s m. warnUnreachable m s) this ms)" for ms
    by (induction ms arbitrary: this) (simp_all add: warnedOnceEach_warnUnreachable)
  then show "warnedOnceEach ds this \<Longrightarrow> warnedOnceEach ds (reportUnreachable U this)"
    by (simp add: reportUnreachable_eq)
qed

lemma warnedOnceEach_checkUninitializedAccess:
  assumes "checkUninitializedAccess key cfg entry exit emptyBody contractName this = Some this'"
    and "warnedOnceEach ds this"
  shows "\<exists>ds'. warnedOnceEach (ds @ ds') this'"
  using assms warnedOnceEach_reportUninitializedAccesses [OF assms(2)]
  by (auto simp add: checkUninitializedAccess_def split: option.splits)

lemma warnedOnceEach_checkUnreachable:
  assumes "checkUnreachable cfg entry exit revert transactionReturn this = Some this'"
    and "warnedOnceEach ds this"
  shows "warnedOnceEach ds this'"
  using assms
  by (auto simp add: checkUnreachable_def warnedOnceEach_reportUnreachable split: option.splits)

lemma warnedOnceEach_analyze:
  assumes "analyze key cfg function contract flow this = Some this'"
    and "warnedOnceEach ds this"
  shows "\<exists>ds'. warnedOnceEach (ds @ ds') this'"
proof (cases "isImplemented function")
  case False
  with assms have "warnedOnceEach (ds @ []) this'" by (simp add: analyze_def)
  then show ?thesis ..
next
  case True
  with assms(1) obtain name this1 where
    a: "checkUninitializedAccess key cfg (flow_entry flow) (flow_exit flow)
          (bodyEmpty function) name this = Some this1"
    and b: "checkUnreachable cfg (flow_entry flow) (flow_exit flow) (flow_revert flow)
          (flow_transactionReturn flow) this1 = Some this'"
    by (auto simp add: analyze_def Let_def split: option.splits)
  from warnedOnceEach_checkUninitializedAccess [OF a assms(2)]
  obtain ds' where "warnedOnceEach (ds @ ds') this1" ..
  from warnedOnceEach_checkUnreachable [OF b this] show ?thesis ..
qed

lemma warnedOnceEach_analyzeAll:
  assumes "analyzeAll key cfg fs this = Some this'" and "warnedOnceEach ds this"
  shows "\<exists>ds'. warnedOnceEach (ds @ ds') this'"
  using assms
proof (induction fs arbitrary: ds this)
  case Nil
  then have "warnedOnceEach (ds @ []) this'" by simp
  then show ?case ..
next
  case (Cons f fs)
  obtain func contract flow where f: "f = (func, contract, flow)" by (cases f)
  from Cons.prems(1) obtain this1 where
    a: "analyze key cfg func contract flow this = Some this1"
    and b: "analyzeAll key cfg fs this1 = Some this'"
    by (auto simp add: f split: option.splits)
  from warnedOnceEach_analyze [OF a Cons.prems(2)]
  obtain ds1 where "warnedOnceEach (ds @ ds1) this1" ..
  from Cons.IH [OF b this] obtain ds2 where "warnedOnceEach ((ds @ ds1) @ ds2) this'" ..
  then have "warnedOnceEach (ds @ (ds1 @ ds2)) this'" by simp
  then show ?case ..
qed

lemma checkUninitializedAccess_terminates:
  assumes "finite (reachableNodes cfg entry)"
  shows "\<exists>this'. checkUninitializedAccess key cfg entry exit emptyBody contractName this = Some this'"
  using traverse_terminates [OF assms] by (auto simp add: checkUninitializedAccess_def)

lemma analyze_terminates:
  assumes "analysable cfg flow"
  shows "\<exists>this'. analyze key cfg function contract flow this = Some this'"
proof (cases "isImplemented function")
  case False
  then show ?thesis by (simp add: analyze_def)
next
  case True
  from assms have fin1: "finite ((exitEdges cfg)\<^sup>* `` {flow_entry flow})"
    and fin2: "finite ((entryEdges cfg)\<^sup>* ``
          {flow_exit flow, flow_revert flow, flow_transactionReturn flow})"
    by (simp_all add: analysable_def reachableNodes_def)
  define mostDerivedContractName where "mostDerivedContractName =
      (case contract of
         Some c \<Rightarrow>
           if contract_id c \<noteq> annotationContract function then Some (contract_name c) else None
       | None \<Rightarrow> None)"
  from assms have "finite (reachableNodes cfg (flow_entry flow))" by (simp add: analysable_def)
  from checkUninitializedAccess_terminates [OF this, of key "flow_exit flow" "bodyEmpty function"
      mostDerivedContractName this]
  obtain this1 where "checkUninitializedAccess key cfg (flow_entry flow) (flow_exit flow)
      (bodyEmpty function) mostDerivedContractName this = Some this1" ..
  with checkUnreachable_result [OF fin1 fin2, of this1] show ?thesis
    by (simp add: analyze_def True mostDerivedContractName_def)
qed

lemma analyzeAll_terminates:
  assumes "\<forall>(function, contract, flow)\<in>set fs. analysable cfg flow"
  shows "\<exists>this'. analyzeAll key cfg fs this = Some this'"
  using assms
proof (induction fs arbitrary: this)
  case Nil
  then show ?case by simp
next
  case (Cons f fs)
  obtain func contract flow where f: "f = (func, contract, flow)" by (cases f)
  from Cons.prems have "analysable cfg flow" by (simp add: f)
  from analyze_terminates [OF this, of key func contract this]
  obtain this1 where a: "analyze key cfg func contract flow this = Some this1" ..
  from Cons.IH [of this1] Cons.prems obtain this' where "analyzeAll key cfg fs this1 = Some this'"
    by auto
  with a show ?case by (simp add: f)
qed

lemma returns_run:
  "checkUninitializedAccess (\<lambda>occ. decl_id (varDeclaration occ)) returnsFlow 0 3 False None newAnalyzer =
     Some returnsReport"
  by code_simp

lemma returns_lifetime:
  "(case run (\<lambda>occ. decl_id (varDeclaration occ)) returnsFlow returnsFunctions newAnalyzer of
      None \<Rightarrow> False
    | Some (ok, final) \<Rightarrow>
        \<not> ok
        \<and> map (\<lambda>d. (errorId d, diag_location d)) (m_errors final)
          = [(3464, (30, 31)), (3464, (10, 20)), (6321, (60, 64)),
             (3464, (30, 31)), (3464, (10, 20)), (6321, (60, 64))]
        \<and> m_unassignedReturnVarsAlreadyWarnedFor final = {y0, y1})"
  by code_simp

lemma returns_analysable:
  "\<forall>(function, contract, flow)\<in>set returnsFunctions. analysable returnsFlow flow"
proof -
  have f0: "(childEdges (\<lambda>node. exits (returnsFlow node)))\<^sup>* `` set [0] \<subseteq> {0, 1, 2, 3}"
    by (rule bfs_closed_reaches) (simp_all add: returnsFlow_def)
  have f6: "(childEdges (\<lambda>node. exits (returnsFlow node)))\<^sup>* `` set [6] \<subseteq> {6, 7}"
    by (rule bfs_closed_reaches) (simp_all add: returnsFlow_def)
  have b3: "(childEdges (\<lambda>node. entries (returnsFlow node)))\<^sup>* `` set [3, 4, 5]
      \<subseteq> {0, 1, 2, 3, 4, 5}"
    by (rule bfs_closed_reaches) (simp_all add: returnsFlow_def)
  have b7: "(childEdges (\<lambda>node. entries (returnsFlow node)))\<^sup>* `` set [7, 4, 5]
      \<subseteq> {4, 5, 6, 7}"
    by (rule bfs_closed_reaches) (simp_all add: returnsFlow_def)
  have "finite (reachableNodes returnsFlow 0)"
    using f0 by (simp add: reachableNodes_def exitEdges_childEdges finite_subset)
  moreover have "finite (reachableNodes returnsFlow 6)"
    using f6 by (simp add: reachableNodes_def exitEdges_childEdges finite_subset)
  moreover have "finite ((entryEdges returnsFlow)\<^sup>* `` {3, 4, 5})"
    using b3 by (simp add: entryEdges_childEdges finite_subset)
  moreover have "finite ((entryEdges returnsFlow)\<^sup>* `` {7, 4, 5})"
    using b7 by (simp add: entryEdges_childEdges finite_subset)
  ultimately show ?thesis by (simp add: returnsFunctions_def analysable_def)
qed

lemma returns_flags:
  "map_option (\<lambda>nodeInfos. uninitializedVariableAccesses (infoAt nodeInfos 3)) (traverse returnsFlow 0)
     = Some {(0, 2), (3, 0), (3, 1)}"
  by code_simp

lemma returns_unreachable:
  "checkUnreachable returnsFlow 0 3 4 5 newAnalyzer = Some newAnalyzer"
  by code_simp

lemma returns_ordered:
  "uninitializedAccessesOrdered (\<lambda>occ. decl_id (varDeclaration occ)) returnsFlow
     {(0, 2), (3, 0), (3, 1)} = [(0, 2), (3, 0), (3, 1)]"
  by code_simp

section \<open>Auxiliary facts about the constant evaluator\<close>

lemma finishes_returns: "m_depth s' = m_depth s \<Longrightarrow> finishes (returns v s') s"
  by (simp add: finishes_def returns_def)

lemma finishes_fatal:
  "m_depth s' = m_depth s \<Longrightarrow> finishes (fatalTypeError eid loc msg s') s"
  by (auto simp add: finishes_def fatalTypeError_def)

lemma finishes_cyclic:
  "finishes (fatalTypeError 5210 loc
     ''Cyclic constant definition (or maximum recursion depth exhausted).''
     (s\<lparr>m_depth := m_depth s + 1\<rparr>)) s"
  by (auto simp add: finishes_def fatalTypeError_def cyclicReported_def)

lemma finishes_thenDo:
  assumes "finishes r s"
    and "\<And>v s1. r = Some (Inr v, s1) \<Longrightarrow> m_depth s1 = m_depth s \<Longrightarrow> finishes (k v s1) s"
  shows "finishes (thenDo r k) s"
proof (cases r)
  case None
  with assms(1) show ?thesis by (simp add: finishes_def)
next
  case (Some p)
  obtain x s1 where p: "p = (x, s1)" by (cases p)
  show ?thesis
  proof (cases x)
    case (Inl f)
    with assms(1) show ?thesis by (simp add: Some p thenDo_def finishes_def)
  next
    case (Inr v)
    with assms(1) have "m_depth s1 = m_depth s" by (simp add: Some p finishes_def)
    with assms(2) [of v s1] show ?thesis by (simp add: Some p Inr thenDo_def)
  qed
qed

lemma finishes_same_depth: "m_depth s = m_depth t \<Longrightarrow> finishes r s = finishes r t"
  by (auto simp add: finishes_def split: option.splits sum.splits)

lemma cache_depth [simp]: "m_depth (cache node v s) = m_depth s"
  by (simp add: cache_def)

lemma finishes_evaluateDeclarationBody:
  assumes "\<And>initialValue s1. vd_value (declarationAt env node) = Some initialValue \<Longrightarrow>
      m_depth s1 = Suc (m_depth s) \<Longrightarrow> m_depth s1 \<le> 32 \<Longrightarrow>
      finishes (evaluate initialValue s1) s1"
  shows "finishes (evaluateDeclarationBody evaluate env node s) s"
proof (cases "m_values s node")
  case (Some v)
  then show ?thesis by (simp add: evaluateDeclarationBody_def finishes_returns)
next
  case None
  note cached = None
  show ?thesis
  proof (cases "vd_isConstant (declarationAt env node)")
    case False
    with cached show ?thesis by (auto simp add: evaluateDeclarationBody_def finishes_def)
  next
    case True
    note const = True
    show ?thesis
    proof (cases "vd_value (declarationAt env node)")
      case None
      with cached const show ?thesis
        by (simp add: evaluateDeclarationBody_def finishes_returns)
    next
      case (Some initialValue)
      note init = Some
      show ?thesis
      proof (cases "vd_type (declarationAt env node)")
        case None
        with cached const init show ?thesis
          by (simp add: evaluateDeclarationBody_def finishes_returns)
      next
        case (Some t)
        let ?s1 = "s\<lparr>m_depth := m_depth s + 1\<rparr>"
        show ?thesis
        proof (cases "m_depth ?s1 > 32")
          case True
          with cached const init Some show ?thesis
            by (simp add: evaluateDeclarationBody_def Let_def finishes_cyclic del: One_nat_def)
        next
          case False
          then have le: "m_depth ?s1 \<le> 32" by simp
          have sub: "finishes (evaluate initialValue ?s1) ?s1"
            by (rule assms [OF init _ le]) simp
          have "finishes (thenDo (evaluate initialValue ?s1) (\<lambda>v s2.
                          let r = convertTypedValue v t;
                              s3 = cache node r s2
                          in returns r (s3\<lparr>m_depth := m_depth s3 - 1\<rparr>))) s"
            using sub le
            by (auto simp add: finishes_def thenDo_def Let_def returns_def
                split: option.splits sum.splits)
          with cached const init Some False show ?thesis
            by (simp add: evaluateDeclarationBody_def Let_def)
        qed
      qed
    qed
  qed
qed

lemma finishes_evaluateExpressionBody:
  assumes "finishes (accept' e s) s"
  shows "finishes (evaluateExpressionBody accept' e s) s"
proof (cases "m_values s (nodeOf e)")
  case (Some v)
  then show ?thesis by (simp add: evaluateExpressionBody_def finishes_returns)
next
  case None
  have "finishes (thenDo (accept' e s) (\<lambda>u s1.
            case m_values s1 (nodeOf e) of
              Some v \<Rightarrow> returns v s1
            | None \<Rightarrow> returns None (cache (nodeOf e) None s1))) s"
    using assms
    by (rule finishes_thenDo) (simp add: finishes_returns split: option.split)
  with None show ?thesis by (simp add: evaluateExpressionBody_def)
qed

lemma finishes_raise: "m_depth s' = m_depth s \<Longrightarrow> finishes (Some (Inl f, s')) s"
  by (auto simp add: finishes_def)

lemma finishes_endVisitUnaryOperation:
  assumes "\<And>s'. m_depth s' = m_depth s \<Longrightarrow> finishes (evaluate sub s') s'"
  shows "finishes (endVisitUnaryOperation evaluate env i loc operator sub s) s"
  unfolding endVisitUnaryOperation_def
proof (rule finishes_thenDo)
  show "finishes (evaluate sub s) s" by (rule assms) simp
next
  fix v and s1 :: ConstantEvaluator
  assume d: "m_depth s1 = m_depth s"
  then show "finishes
        (case v of
           None \<Rightarrow> returns () s1
         | Some v0 \<Rightarrow>
             (case unaryOperatorResult env (tr_type v0) operator of
                None \<Rightarrow> returns () s1
              | Some resultType \<Rightarrow>
                  (case convertTypedValue (Some v0) resultType of
                     None \<Rightarrow> returns () s1
                   | Some v1 \<Rightarrow>
                       (case evaluateUnaryOperator operator (tr_value v1) of
                          None \<Rightarrow> returns () s1
                        | Some result \<Rightarrow>
                            (case convertType result resultType of
                               None \<Rightarrow>
                                 fatalTypeError 3667 loc
                                   ''Arithmetic error when computing constant value.'' s1
                             | Some convertedValue \<Rightarrow>
                                 returns () (cache i (Some convertedValue) s1)))))) s"
    by (simp add: finishes_returns finishes_fatal split: option.split)
qed

lemma finishes_endVisitBinaryOperation:
  assumes l: "\<And>s'. m_depth s' = m_depth s \<Longrightarrow> finishes (evaluate l s') s'"
    and r: "\<And>s'. m_depth s' = m_depth s \<Longrightarrow> finishes (evaluate r s') s'"
  shows "finishes (endVisitBinaryOperation evaluate env i loc operator l r s) s"
  unfolding endVisitBinaryOperation_def
proof (rule finishes_thenDo)
  show "finishes (evaluate l s) s" by (rule l) simp
next
  fix left and s1 :: ConstantEvaluator
  assume d1: "m_depth s1 = m_depth s"
  show "finishes (thenDo (evaluate r s1) (\<lambda>right s2.
         case left of
           None \<Rightarrow> returns () s2
         | Some left0 \<Rightarrow>
             (case right of
                None \<Rightarrow> returns () s2
              | Some right0 \<Rightarrow>
                  if isCompareOp operator then returns () s2
                  else
                    (case binaryOperatorResult env (tr_type left0) operator (tr_type right0) of
                       None \<Rightarrow>
                         fatalTypeError 6020 loc
                           (''Operator '' @ tokenToString env operator
                              @ '' not compatible with types ''
                              @ typeToString env (tr_type left0) @ '' and ''
                              @ typeToString env (tr_type right0)) s2
                     | Some resultType \<Rightarrow>
                         (case convertTypedValue (Some left0) resultType of
                            None \<Rightarrow> returns () s2
                          | Some left1 \<Rightarrow>
                              (case convertTypedValue (Some right0) resultType of
                                 None \<Rightarrow> returns () s2
                               | Some right1 \<Rightarrow>
                                   (case evaluateBinaryOperator (precisionGuardBaseX env)
                                           operator (tr_value left1) (tr_value right1) of
                                      Inl f \<Rightarrow> Some (Inl f, s2)
                                    | Inr None \<Rightarrow> returns () s2
                                    | Inr (Some v) \<Rightarrow>
                                        (case convertType v resultType of
                                           None \<Rightarrow>
                                             fatalTypeError 2643 loc
                                               ''Arithmetic error when computing constant value.'' s2
                                         | Some convertedValue \<Rightarrow>
                                             returns () (cache i (Some convertedValue) s2))))))))) s"
  proof (rule finishes_thenDo)
    from r [OF d1] show "finishes (evaluate r s1) s"
      by (simp add: finishes_same_depth [OF d1])
  next
    fix right and s2 :: ConstantEvaluator
    assume d2: "m_depth s2 = m_depth s"
    then show "finishes
         (case left of
           None \<Rightarrow> returns () s2
         | Some left0 \<Rightarrow>
             (case right of
                None \<Rightarrow> returns () s2
              | Some right0 \<Rightarrow>
                  if isCompareOp operator then returns () s2
                  else
                    (case binaryOperatorResult env (tr_type left0) operator (tr_type right0) of
                       None \<Rightarrow>
                         fatalTypeError 6020 loc
                           (''Operator '' @ tokenToString env operator
                              @ '' not compatible with types ''
                              @ typeToString env (tr_type left0) @ '' and ''
                              @ typeToString env (tr_type right0)) s2
                     | Some resultType \<Rightarrow>
                         (case convertTypedValue (Some left0) resultType of
                            None \<Rightarrow> returns () s2
                          | Some left1 \<Rightarrow>
                              (case convertTypedValue (Some right0) resultType of
                                 None \<Rightarrow> returns () s2
                               | Some right1 \<Rightarrow>
                                   (case evaluateBinaryOperator (precisionGuardBaseX env)
                                           operator (tr_value left1) (tr_value right1) of
                                      Inl f \<Rightarrow> Some (Inl f, s2)
                                    | Inr None \<Rightarrow> returns () s2
                                    | Inr (Some v) \<Rightarrow>
                                        (case convertType v resultType of
                                           None \<Rightarrow>
                                             fatalTypeError 2643 loc
                                               ''Arithmetic error when computing constant value.'' s2
                                         | Some convertedValue \<Rightarrow>
                                             returns () (cache i (Some convertedValue) s2)))))))) s"
      by (simp add: finishes_returns finishes_fatal finishes_raise split: option.split sum.split)
  qed
qed

lemma finishes_endVisitBody:
  assumes ev: "\<And>c s'. c \<in> set (subExpressions e) \<Longrightarrow> m_depth s' = m_depth s \<Longrightarrow>
      finishes (evaluate c s') s'"
    and dc: "\<And>i d. e = Identifier i (Some d) \<Longrightarrow> finishes (evaluateDecl d s) s"
  shows "finishes (endVisitBody evaluate evaluateDecl env e s) s"
proof (cases e)
  case (BinaryOperation i loc operator l r)
  then show ?thesis
    using ev by (simp add: endVisitBody_def finishes_endVisitBinaryOperation)
next
  case (UnaryOperation i loc operator sub)
  then show ?thesis
    using ev by (simp add: endVisitBody_def finishes_endVisitUnaryOperation)
next
  case (Literal i t)
  then show ?thesis by (simp add: endVisitBody_def finishes_returns split: option.split)
next
  case (Identifier i d)
  show ?thesis
  proof (cases d)
    case None
    with Identifier show ?thesis by (simp add: endVisitBody_def finishes_returns)
  next
    case (Some decl)
    have "finishes (thenDo (evaluateDecl decl s) (\<lambda>v s1. returns () (cache i v s1))) s"
      by (rule finishes_thenDo) (simp_all add: dc Identifier Some finishes_returns)
    with Identifier Some show ?thesis by (simp add: endVisitBody_def finishes_returns)
  qed
next
  case (TupleExpression i components)
  show ?thesis
  proof (cases "\<exists>c. components = [c]")
    case True
    then obtain c where c: "components = [c]" ..
    have "finishes (thenDo (evaluate c s) (\<lambda>v s1. returns () (cache i v s1))) s"
      by (rule finishes_thenDo) (simp_all add: ev TupleExpression c finishes_returns)
    with TupleExpression c show ?thesis by (simp add: endVisitBody_def)
  next
    case False
    with TupleExpression show ?thesis
      by (auto simp add: endVisitBody_def finishes_returns split: list.split)
  qed
next
  case (OtherExpression i)
  then show ?thesis by (simp add: endVisitBody_def finishes_returns)
qed

lemma finishes_acceptBody:
  assumes a: "\<And>c s'. c \<in> set (subExpressions e) \<Longrightarrow> m_depth s' = m_depth s \<Longrightarrow>
      finishes (accept' c s') s'"
    and al: "\<And>i cs. e = TupleExpression i cs \<Longrightarrow> finishes (acceptAll' cs s) s"
    and ev: "\<And>s'. m_depth s' = m_depth s \<Longrightarrow> finishes (endVisit' e s') s'"
  shows "finishes (acceptBody accept' acceptAll' endVisit' e s) s"
proof -
  have ev': "finishes (endVisit' e s') s" if "m_depth s' = m_depth s" for s'
    using ev [OF that] by (simp add: finishes_same_depth [OF that])
  have a': "finishes (accept' c s') s" if "c \<in> set (subExpressions e)" "m_depth s' = m_depth s" for c s'
    using a [OF that] by (simp add: finishes_same_depth [OF that(2)])
  show ?thesis
  proof (cases e)
    case (BinaryOperation i loc operator l r)
    have "finishes (thenDo (accept' l s) (\<lambda>u s1. thenDo (accept' r s1) (\<lambda>u s2. endVisit' e s2))) s"
      by (intro finishes_thenDo a' ev') (simp_all add: BinaryOperation)
    with BinaryOperation show ?thesis by (simp add: acceptBody_def)
  next
    case (UnaryOperation i loc operator sub)
    have "finishes (thenDo (accept' sub s) (\<lambda>u s1. endVisit' e s1)) s"
      by (intro finishes_thenDo a' ev') (simp_all add: UnaryOperation)
    with UnaryOperation show ?thesis by (simp add: acceptBody_def)
  next
    case (TupleExpression i cs)
    have "finishes (thenDo (acceptAll' cs s) (\<lambda>u s1. endVisit' e s1)) s"
      by (intro finishes_thenDo al ev') (simp_all add: TupleExpression)
    with TupleExpression show ?thesis by (simp add: acceptBody_def)
  next
    case (Literal i t)
    with ev' [of s] show ?thesis by (simp add: acceptBody_def)
  next
    case (Identifier i d)
    with ev' [of s] show ?thesis by (simp add: acceptBody_def)
  next
    case (OtherExpression i)
    with ev' [of s] show ?thesis by (simp add: acceptBody_def)
  qed
qed

lemma finishes_acceptAll:
  assumes "\<And>c k s'. c \<in> set cs \<Longrightarrow> m_depth s' = m_depth s \<Longrightarrow> cost c \<le> k \<Longrightarrow>
      finishes (accept k env c s') s'"
    and "length cs + sum_list (map cost cs) < m"
  shows "finishes (acceptAll m env cs s) s"
  using assms
proof (induction cs arbitrary: m s)
  case Nil
  then obtain m' where "m = Suc m'" by (cases m) auto
  then show ?case by (simp add: finishes_returns)
next
  case (Cons c cs)
  from Cons.prems(2) obtain m' where m: "m = Suc m'" by (cases m) auto
  with Cons.prems(2) have c: "cost c \<le> m'" and rest: "length cs + sum_list (map cost cs) < m'"
    by simp_all
  have "finishes (thenDo (accept m' env c s) (\<lambda>u s1. acceptAll m' env cs s1)) s"
  proof (rule finishes_thenDo)
    show "finishes (accept m' env c s) s" using Cons.prems(1) [of c s m'] c by simp
  next
    fix u and s1 :: ConstantEvaluator
    assume d: "m_depth s1 = m_depth s"
    have "finishes (acceptAll m' env cs s1) s1"
    proof (rule Cons.IH [OF _ rest])
      fix c' k and s' :: ConstantEvaluator
      assume "c' \<in> set cs" "m_depth s' = m_depth s1" "cost c' \<le> k"
      then show "finishes (accept k env c' s') s'"
        using Cons.prems(1) [of c' s' k] d by simp
    qed
    then show "finishes (acceptAll m' env cs s1) s" by (simp add: finishes_same_depth [OF d])
  qed
  then show ?case by (simp add: m)
qed

lemma finishes_from_children:
  assumes kids: "\<And>c k s'. c \<in> set (subExpressions e) \<Longrightarrow> m_depth s' = m_depth s \<Longrightarrow> K c \<le> k \<Longrightarrow>
      finishes (evaluateExpression k env c s') s' \<and> finishes (accept k env c s') s'"
    and decl: "\<And>i d k s'. e = Identifier i (Some d) \<Longrightarrow> m_depth s' = m_depth s \<Longrightarrow> D \<le> k \<Longrightarrow>
      finishes (evaluateDeclaration k env d s') s'"
    and bound: "3 + length (subExpressions e) + sum_list (map K (subExpressions e)) \<le> n"
      "3 + D \<le> n"
  shows "finishes (evaluateExpression n env e s) s \<and> finishes (accept n env e s) s
    \<and> finishes (endVisit n env e s) s"
proof -
  have Kc: "K c + 3 \<le> n" if "c \<in> set (subExpressions e)" for c
  proof -
    from that have "K c \<le> sum_list (map K (subExpressions e))"
      by (simp add: member_le_sum_list)
    with bound(1) show ?thesis by simp
  qed
  have EV: "finishes (endVisit k env e s') s'" if "n \<le> k + 2" "m_depth s' = m_depth s" for k s'
  proof -
    from that(1) bound(2) obtain k' where k: "k = Suc k'" by (cases k) auto
    show ?thesis
      unfolding k endVisit.simps
    proof (rule finishes_endVisitBody)
      fix c and s'' :: ConstantEvaluator
      assume c: "c \<in> set (subExpressions e)" and d: "m_depth s'' = m_depth s'"
      from Kc [OF c] that(1) have "K c \<le> k'" by (simp add: k)
      with kids [OF c, of s'' k'] d that(2) show "finishes (evaluateExpression k' env c s'') s''"
        by simp
    next
      fix i d assume "e = Identifier i (Some d)"
      moreover from bound(2) that(1) have "D \<le> k'" by (simp add: k)
      ultimately show "finishes (evaluateDeclaration k' env d s') s'"
        using decl that(2) by simp
    qed
  qed
  have AC: "finishes (accept k env e s') s'" if "n \<le> k + 1" "m_depth s' = m_depth s" for k s'
  proof -
    from that(1) bound(2) obtain k' where k: "k = Suc k'" by (cases k) auto
    show ?thesis
      unfolding k accept.simps
    proof (rule finishes_acceptBody)
      fix c and s'' :: ConstantEvaluator
      assume c: "c \<in> set (subExpressions e)" and d: "m_depth s'' = m_depth s'"
      from Kc [OF c] that(1) have "K c \<le> k'" by (simp add: k)
      with kids [OF c, of s'' k'] d that(2) show "finishes (accept k' env c s'') s''" by simp
    next
      fix i cs assume e: "e = TupleExpression i cs"
      show "finishes (acceptAll k' env cs s') s'"
      proof (rule finishes_acceptAll [where cost = K])
        fix c j and s'' :: ConstantEvaluator
        assume "c \<in> set cs" "m_depth s'' = m_depth s'" "K c \<le> j"
        then show "finishes (accept j env c s'') s''"
          using kids [of c s'' j] that(2) by (simp add: e)
      next
        from bound(1) that(1) show "length cs + sum_list (map K cs) < k'"
          by (simp add: e k)
      qed
    next
      fix s'' :: ConstantEvaluator
      assume "m_depth s'' = m_depth s'"
      with that show "finishes (endVisit k' env e s'') s''"
        by (intro EV) (simp_all add: k)
    qed
  qed
  have EX: "finishes (evaluateExpression n env e s) s"
  proof -
    from bound(2) obtain n' where n: "n = Suc n'" by (cases n) auto
    show ?thesis
      unfolding n evaluateExpression.simps
      by (rule finishes_evaluateExpressionBody) (simp add: AC n)
  qed
  from EX AC [of n s] EV [of n s] show ?thesis by simp
qed

lemma evaluation_finishes:
  "32 - m_depth s = b \<Longrightarrow> fuelFor env b e \<le> n \<Longrightarrow>
     finishes (evaluateExpression n env e s) s \<and> finishes (accept n env e s) s
     \<and> finishes (endVisit n env e s) s"
proof (induction env b e arbitrary: n s rule: fuelFor.induct)
  case (1 env b i loc operator l r)
  show ?case
  proof (rule finishes_from_children [where K = "fuelFor env b" and D = 0])
    fix c and k :: nat and s' :: ConstantEvaluator
    assume "c \<in> set (subExpressions (BinaryOperation i loc operator l r))"
      "m_depth s' = m_depth s" "fuelFor env b c \<le> k"
    then show "finishes (evaluateExpression k env c s') s' \<and> finishes (accept k env c s') s'"
      using "1.IH" [of s' k] "1.prems"(1) by auto
  qed (use "1.prems" in simp_all)
next
  case (2 env b i loc operator sub)
  show ?case
  proof (rule finishes_from_children [where K = "fuelFor env b" and D = 0])
    fix c and k :: nat and s' :: ConstantEvaluator
    assume "c \<in> set (subExpressions (UnaryOperation i loc operator sub))"
      "m_depth s' = m_depth s" "fuelFor env b c \<le> k"
    then show "finishes (evaluateExpression k env c s') s' \<and> finishes (accept k env c s') s'"
      using "2.IH" [of s' k] "2.prems"(1) by auto
  qed (use "2.prems" in simp_all)
next
  case (3 env b i t)
  show ?case
    by (rule finishes_from_children [where K = "\<lambda>c. 0" and D = 0]) (use "3.prems" in simp_all)
next
  case (4 env i d)
  show ?case
  proof (rule finishes_from_children [where K = "\<lambda>c. 0" and D = 1])
    fix j d' and k :: nat and s' :: ConstantEvaluator
    assume "m_depth s' = m_depth s" "1 \<le> k"
    then obtain k' where k: "k = Suc k'" by (cases k) auto
    show "finishes (evaluateDeclaration k env d' s') s'"
      unfolding k evaluateDeclaration.simps
      by (rule finishes_evaluateDeclarationBody)
        (use \<open>m_depth s' = m_depth s\<close> "4.prems"(1) in simp)
  qed (use "4.prems" in simp_all)
next
  case (5 env b i d)
  define D where "D = (case d of None \<Rightarrow> 1 | Some decl \<Rightarrow>
      (case vd_value (declarationAt env decl) of None \<Rightarrow> 1
       | Some initialValue \<Rightarrow> 1 + fuelFor env b initialValue))"
  have cost: "fuelFor env (Suc b) (Identifier i d) = 3 + D"
    by (simp add: D_def split: option.split)
  show ?case
  proof (rule finishes_from_children [where K = "\<lambda>c. 0" and D = D])
    fix j d' and k :: nat and s' :: ConstantEvaluator
    assume e: "Identifier i d = Identifier j (Some d')" and depth: "m_depth s' = m_depth s"
      and k: "D \<le> k"
    from e have d: "d = Some d'" by simp
    have "1 \<le> D" by (simp add: D_def split: option.split)
    with k obtain k' where k': "k = Suc k'" by (cases k) auto
    show "finishes (evaluateDeclaration k env d' s') s'"
      unfolding k' evaluateDeclaration.simps
    proof (rule finishes_evaluateDeclarationBody)
      fix initialValue and s1 :: ConstantEvaluator
      assume init: "vd_value (declarationAt env d') = Some initialValue"
        and s1: "m_depth s1 = Suc (m_depth s')" "m_depth s1 \<le> 32"
      from init d k k' have "fuelFor env b initialValue \<le> k'" by (simp add: D_def)
      moreover from s1 depth "5.prems"(1) have "32 - m_depth s1 = b" by simp
      ultimately show "finishes (evaluateExpression k' env initialValue s1) s1"
        using "5.IH" [OF d init, of s1 k'] by simp
    qed
  qed (use "5.prems" cost in simp_all)
next
  case (6 env b i components)
  show ?case
  proof (rule finishes_from_children [where K = "fuelFor env b" and D = 0])
    fix c and k :: nat and s' :: ConstantEvaluator
    assume "c \<in> set (subExpressions (TupleExpression i components))"
      "m_depth s' = m_depth s" "fuelFor env b c \<le> k"
    then show "finishes (evaluateExpression k env c s') s' \<and> finishes (accept k env c s') s'"
      using "6.IH" [of c s' k] "6.prems"(1) by auto
  qed (use "6.prems" in simp_all)
next
  case (7 env b i)
  show ?case
    by (rule finishes_from_children [where K = "\<lambda>c. 0" and D = 0]) (use "7.prems" in simp_all)
qed

lemma declaration_finishes:
  assumes "fuelForDeclaration env (32 - m_depth s) d \<le> n"
  shows "finishes (evaluateDeclaration n env d s) s"
proof -
  from assms obtain n' where n: "n = Suc n'"
    by (cases n) (auto simp add: fuelForDeclaration_def split: option.splits)
  show ?thesis
    unfolding n evaluateDeclaration.simps
  proof (rule finishes_evaluateDeclarationBody)
    fix initialValue and s1 :: ConstantEvaluator
    assume init: "vd_value (declarationAt env d) = Some initialValue"
      and s1: "m_depth s1 = Suc (m_depth s)" "m_depth s1 \<le> 32"
    from s1 have "32 - m_depth s1 = 32 - m_depth s - 1" by simp
    moreover from assms init have "fuelFor env (32 - m_depth s - 1) initialValue \<le> n'"
      by (simp add: fuelForDeclaration_def n)
    ultimately show "finishes (evaluateExpression n' env initialValue s1) s1"
      using evaluation_finishes [of s1 "32 - m_depth s - 1" env initialValue n'] by simp
  qed
qed

lemma finishes_result:
  assumes "finishes r s" "m_depth s \<le> 32"
  shows "\<exists>x s'. r = Some (x, s') \<and>
    (case x of
       Inr v \<Rightarrow> m_depth s' = m_depth s
     | Inl f \<Rightarrow> m_depth s' \<le> 32 \<or> (m_depth s' = 33 \<and> f = FatalError \<and> cyclicReported s'))"
  using assms by (auto simp add: finishes_def split: option.splits sum.splits)

lemma referenceChain_deeper:
  "referenceChain env (s\<lparr>m_depth := k\<rparr>) d ds = referenceChain env s d ds"
  by (induction ds arbitrary: d)
    (auto simp add: isUnevaluatedConstant_def split: option.splits Expression.splits)

lemma referenceChain_head: "referenceChain env s d ds \<Longrightarrow> isUnevaluatedConstant env s d"
  by (cases ds) simp_all

lemma evaluateExpression_identifier_fails:
  assumes "m_values s i = None" "vd_isConstant (declarationAt env d)"
    "evaluateDeclaration n env d s = Some (Inl f, s')"
  shows "evaluateExpression (Suc (Suc (Suc n))) env (Identifier i (Some d)) s = Some (Inl f, s')"
  using assms by (simp add: evaluateExpressionBody_def acceptBody_def endVisitBody_def thenDo_def)

lemma evaluateDeclaration_at_limit:
  assumes "isUnevaluatedConstant env s d" "32 \<le> m_depth s"
  shows "evaluateDeclaration (Suc n) env d s =
    Some (Inl FatalError, s\<lparr>m_depth := m_depth s + 1,
      m_errorReporter := m_errorReporter s @ [cyclicDefinition env d]\<rparr>)"
  using assms
  by (auto simp add: isUnevaluatedConstant_def evaluateDeclarationBody_def Let_def
      fatalTypeError_def cyclicDefinition_def)

lemma evaluateDeclaration_fails:
  assumes "isUnevaluatedConstant env s d" "m_depth s < 32"
    "vd_value (declarationAt env d) = Some initialValue"
    "evaluateExpression n env initialValue (s\<lparr>m_depth := m_depth s + 1\<rparr>) = Some (Inl f, s')"
  shows "evaluateDeclaration (Suc n) env d s = Some (Inl f, s')"
  using assms
  by (auto simp add: isUnevaluatedConstant_def evaluateDeclarationBody_def Let_def thenDo_def)

lemma referenceChain_fails:
  assumes "referenceChain env s d ds" "m_depth s \<le> 32" "32 \<le> m_depth s + length ds"
    "4 * (32 - m_depth s) + 1 \<le> n"
  shows "evaluateDeclaration n env d s =
    Some (Inl FatalError, s\<lparr>m_depth := 33,
      m_errorReporter := m_errorReporter s
        @ [cyclicDefinition env ((d # ds) ! (32 - m_depth s))]\<rparr>)"
  using assms
proof (induction ds arbitrary: d s n)
  case Nil
  then have depth: "m_depth s = 32" by simp
  from Nil.prems(4) obtain n' where n: "n = Suc n'" by (cases n) auto
  from Nil.prems(1) have "isUnevaluatedConstant env s d" by simp
  then show ?case
    using evaluateDeclaration_at_limit [of env s d n'] by (simp add: n depth)
next
  case (Cons d' ds)
  from Cons.prems(1) have head: "isUnevaluatedConstant env s d" by simp
  show ?case
  proof (cases "m_depth s = 32")
    case True
    from Cons.prems(4) obtain n' where n: "n = Suc n'" by (cases n) auto
    from head show ?thesis
      using evaluateDeclaration_at_limit [of env s d n'] by (simp add: n True)
  next
    case False
    with Cons.prems(2) have less: "m_depth s < 32" by simp
    let ?s1 = "s\<lparr>m_depth := m_depth s + 1\<rparr>"
    from Cons.prems(1) obtain i where init:
        "vd_value (declarationAt env d) = Some (Identifier i (Some d'))" "m_values s i = None"
      and rest: "referenceChain env s d' ds"
      by (auto split: option.splits Expression.splits)
    define m where "m = n - 4"
    from less Cons.prems(4) have n: "n = Suc (Suc (Suc (Suc m)))"
      and m: "4 * (32 - m_depth ?s1) + 1 \<le> m"
      by (simp_all add: m_def)
    from rest have chain: "referenceChain env ?s1 d' ds"
      by (simp add: referenceChain_deeper)
    from less Cons.prems(3) have "m_depth ?s1 \<le> 32" "32 \<le> m_depth ?s1 + length ds"
      by simp_all
    from Cons.IH [OF chain this m]
    have "evaluateDeclaration m env d' ?s1 =
      Some (Inl FatalError, ?s1\<lparr>m_depth := 33,
        m_errorReporter := m_errorReporter ?s1
          @ [cyclicDefinition env ((d' # ds) ! (32 - m_depth ?s1))]\<rparr>)" .
    moreover from less have "(d # d' # ds) ! (32 - m_depth s) = (d' # ds) ! (32 - m_depth ?s1)"
      by (simp add: Suc_diff_Suc [symmetric] del: One_nat_def)
    ultimately have run: "evaluateDeclaration m env d' ?s1 =
      Some (Inl FatalError, s\<lparr>m_depth := 33,
        m_errorReporter := m_errorReporter s
          @ [cyclicDefinition env ((d # d' # ds) ! (32 - m_depth s))]\<rparr>)"
      by simp
    from referenceChain_head [OF rest] have const: "vd_isConstant (declarationAt env d')"
      by (simp add: isUnevaluatedConstant_def)
    from init(2) have "m_values ?s1 i = None" by simp
    from evaluateExpression_identifier_fails [OF this const run]
    have "evaluateExpression (Suc (Suc (Suc m))) env (Identifier i (Some d')) ?s1 =
      Some (Inl FatalError, s\<lparr>m_depth := 33,
        m_errorReporter := m_errorReporter s
          @ [cyclicDefinition env ((d # d' # ds) ! (32 - m_depth s))]\<rparr>)" .
    from evaluateDeclaration_fails [OF head less init(1) this]
    show ?thesis by (simp only: n)
  qed
qed

lemma evaluateDeclaration_step:
  assumes "isUnevaluatedConstant env s d"
    "vd_value (declarationAt env d) = Some initialValue" "vd_type (declarationAt env d) = Some t"
  shows "evaluateDeclaration (Suc n) env d s =
     (if 32 \<le> m_depth s then
        Some (Inl FatalError, s\<lparr>m_depth := m_depth s + 1,
          m_errorReporter := m_errorReporter s @ [cyclicDefinition env d]\<rparr>)
      else
        thenDo (evaluateExpression n env initialValue (s\<lparr>m_depth := m_depth s + 1\<rparr>))
          (\<lambda>v s2. returns (convertTypedValue v t)
             ((cache d (convertTypedValue v t) s2)\<lparr>m_depth := m_depth s2 - 1\<rparr>)))"
  using assms
  by (auto simp add: isUnevaluatedConstant_def evaluateDeclarationBody_def Let_def
      fatalTypeError_def cyclicDefinition_def)

lemma cyclic_chain:
  "referenceChain cyclicConstants newEvaluator 0 (concat (replicate 16 [1, 0]))
   \<and> (0 # concat (replicate 16 [1, 0 :: nat])) ! 32 = 0"
  by code_simp

lemma deep_chain:
  "referenceChain deepConstants newEvaluator 8 [9..<41] \<and> (8 # [9..<41]) ! 32 = 40"
  by (simp add: deepConstants_def isUnevaluatedConstant_def newEvaluator_def upt_rec)

lemma short_chain:
  "fuelForDeclaration deepConstants 32 39 = 8
   \<and> map_option fst (evaluateDeclaration 8 deepConstants 39 newEvaluator)
      = Some (Inr (Some \<lparr>tr_type = IntegerType 0 255, tr_value = 5\<rparr>))"
  using numerator_of_int [of 5] denominator_of_int [of 5]
  by (simp add: deepConstants_def fuelForDeclaration_def newEvaluator_def eval_nat_numeral
      evaluateDeclarationBody_def evaluateExpressionBody_def acceptBody_def endVisitBody_def
      thenDo_def returns_def cache_def convertTypedValue_def constantToTypedValue_def
      convertType_def Let_def)


section \<open>Division and modulo by zero\<close>

text \<open>
  Claim C9. For every rational \<open>x\<close>, \<open>evaluateBinaryOperator(Div, x, 0)\<close> and
  \<open>evaluateBinaryOperator(Mod, x, 0)\<close> yield no value.
\<close>

theorem division_by_zero_yields_no_value:
  "evaluateBinaryOperator g Div x 0 = Inr None \<and> evaluateBinaryOperator g Mod x 0 = Inr None"
  by (simp add: evaluateBinaryOperator_def)

theorem division_by_zero_witness:
  "evaluateBinaryOperator (\<lambda>m l e. True) Div (Fract 7 2) 0 = Inr None
   \<and> evaluateBinaryOperator (\<lambda>m l e. True) Mod (Fract 7 2) 0 = Inr None"
  using division_by_zero_yields_no_value [of "\<lambda>m l e. True" "Fract 7 2"] by simp

section \<open>The precision guard of exponentiation\<close>

text \<open>
  Claim C4, as the sources have it. The guard is an upper-bound estimate: for every
  \<open>base > 0\<close> and exponent \<open>e \<ge> 0\<close>, whenever \<open>fitsPrecisionExp\<close> answers true the exact
  power \<open>base ^ e\<close> is below \<open>2 ^ 4096\<close>, that is, it needs at most 4096 bits. With
  \<open>msb base\<close> the index of the most significant set bit
  (\<open>2 ^ msb base \<le> base < 2 ^ (msb base + 1)\<close>), the answer is true for the bases 0 and 1,
  false when \<open>msb base > 4096\<close>, and otherwise true exactly when
  \<open>e * (msb base + 1) \<le> 4096\<close>. The converse direction of the claim (true whenever the
  exact result fits) does not hold, see \<open>fitsPrecisionExp_rejects_fitting_power\<close>.
\<close>

theorem fitsPrecisionExp_never_overestimates:
  assumes "0 < base" and "0 \<le> e"
  shows "(fitsPrecisionExp base e = Inr True \<longrightarrow> base ^ nat e < 2 ^ bitsMax)
       \<and> 2 ^ msb base \<le> base \<and> base < 2 ^ (msb base + 1)
       \<and> fitsPrecisionExp base e =
           Inr (if base = 1 then True
                else if msb base > bitsMax then False
                else e * (int (msb base) + 1) \<le> int bitsMax)
       \<and> fitsPrecisionExp 0 e = Inr True"
  using assms fitsPrecisionExp_sound [of base e] msb_bounds [of base]
    fitsPrecisionExp_positive [of base e]
  by (simp add: fitsPrecisionExp_def [of 0])

theorem fitsPrecisionExp_witness:
  "(0::int) < 3 \<and> (0::int) \<le> 5 \<and> fitsPrecisionExp 3 5 = Inr True \<and> (3::int) ^ nat 5 < 2 ^ bitsMax"
  using fitsPrecisionExp_never_overestimates [of 3 5]
  by (simp add: msb_unique [of 1 3] bitsMax_def)

text \<open>
  The claim as stated fails: \<open>2 ^ 2049\<close> has 2050 bits, yet the estimate
  \<open>2049 * (1 + 1) = 4098\<close> exceeds 4096 and the guard answers false.
\<close>

theorem fitsPrecisionExp_rejects_fitting_power:
  "fitsPrecisionExp 2 2049 = Inr False \<and> (2::int) ^ nat 2049 < 2 ^ bitsMax"
  by (simp add: fitsPrecisionExp_positive msb_unique [of 1 2] bitsMax_def)

section \<open>Type conversion\<close>

text \<open>
  Claim C7. For every rational value and target type, \<open>convertType\<close> yields the value
  unchanged for a rational-number target; for a bounded integer target it yields the
  integer quotient truncated towards zero exactly when the value lies within
  \<open>[minValue, maxValue]\<close> and nothing otherwise, so an integer \<open>n\<close> within the bounds
  is returned as \<open>n\<close> and one outside gives nothing; every other target gives nothing.
\<close>

theorem convertType_rule:
  "convertType v (RationalNumberType q) = Some \<lparr>tr_type = RationalNumberType v, tr_value = v\<rparr>
   \<and> convertType v (IntegerType lo hi) =
       (if of_int lo \<le> v \<and> v \<le> of_int hi
        then Some \<lparr>tr_type = IntegerType lo hi, tr_value = of_int (if 0 \<le> v then \<lfloor>v\<rfloor> else \<lceil>v\<rceil>)\<rparr>
        else None)
   \<and> convertType (of_int n) (IntegerType lo hi) =
       (if lo \<le> n \<and> n \<le> hi then Some \<lparr>tr_type = IntegerType lo hi, tr_value = of_int n\<rparr> else None)
   \<and> convertType v OtherType = None"
  by (auto simp add: convertType_def truncated_quotient numerator_of_int denominator_of_int)

theorem convertType_witness:
  "convertType (- 7 / 2) (RationalNumberType 0)
     = Some \<lparr>tr_type = RationalNumberType (- 7 / 2), tr_value = - 7 / 2\<rparr>
   \<and> convertType (- 7 / 2) (IntegerType (- 128) 127)
     = Some \<lparr>tr_type = IntegerType (- 128) 127, tr_value = - 3\<rparr>
   \<and> convertType (of_int 200) (IntegerType (- 128) 127) = None
   \<and> convertType (- 7 / 2) OtherType = None"
proof -
  have "\<lceil>- 7 / 2 :: rat\<rceil> = - 3" by (simp add: ceiling_eq_iff)
  then show ?thesis
    using convertType_rule [of "- 7 / 2" 0 "- 128" 127 200] by simp
qed

section \<open>Exponentiation\<close>

text \<open>
  Claim C5. \<open>evaluateBinaryOperator(Exp, base, e)\<close> never fails an assertion and yields:
  no value when the exponent \<open>e\<close> has a fractional part; 1 when \<open>e\<close> is 0; the base
  when the base is 0 or 1; 1 for even and \<open>-1\<close> for odd exponents when the base is \<open>-1\<close>
  (no restriction on the size of the exponent in these cases); otherwise no value when
  \<open>|e|\<close> exceeds the largest 32-bit unsigned number or when the precision guard rejects
  the magnitude of the base's numerator or its denominator at \<open>|e|\<close>; and else the
  fraction of the numerator and the denominator each raised to \<open>|e|\<close>, inverted when
  \<open>e\<close> is negative.
\<close>

theorem exponentiation_rule:
  "evaluateBinaryOperator g Exp base e = Inr
     (if denominator e \<noteq> 1 then None
      else if e = 0 then Some 1
      else if base = 0 \<or> base = 1 then Some base
      else if base = - 1 then Some (if even (numerator e) then 1 else - 1)
      else if \<bar>numerator e\<bar> > uint32_max then None
      else if fitsPrecisionExp \<bar>numerator base\<bar> \<bar>numerator e\<bar> = Inr False
            \<or> fitsPrecisionExp \<bar>denominator base\<bar> \<bar>numerator e\<bar> = Inr False then None
      else if numerator e \<ge> 0
        then Some (Fract (numerator base ^ nat \<bar>numerator e\<bar>) (denominator base ^ nat \<bar>numerator e\<bar>))
        else Some (Fract (denominator base ^ nat \<bar>numerator e\<bar>) (numerator base ^ nat \<bar>numerator e\<bar>)))"
proof -
  have exp_eq: "evaluateBinaryOperator g Exp base e = evaluateExp base e"
    by (simp add: evaluateBinaryOperator_def)
  consider (frac) "denominator e \<noteq> 1"
    | (zero) "denominator e = 1" "e = 0"
    | (triv) "denominator e = 1" "e \<noteq> 0" "base = 0 \<or> base = 1"
    | (neg) "denominator e = 1" "e \<noteq> 0" "base \<noteq> 0" "base \<noteq> 1" "base = - 1"
    | (big) "denominator e = 1" "e \<noteq> 0" "base \<noteq> 0" "base \<noteq> 1" "base \<noteq> - 1"
        "\<bar>numerator e\<bar> > uint32_max"
    | (gen) "denominator e = 1" "e \<noteq> 0" "base \<noteq> 0" "base \<noteq> 1" "base \<noteq> - 1"
        "\<bar>numerator e\<bar> \<le> uint32_max"
    by fastforce
  then show ?thesis
  proof cases
    case frac
    show ?thesis unfolding exp_eq evaluateExp_special(1) [OF frac] using frac by simp
  next
    case zero
    then show ?thesis unfolding exp_eq evaluateExp_special(2) [OF zero] by simp
  next
    case triv
    show ?thesis unfolding exp_eq evaluateExp_special(3) [OF triv] using triv by auto
  next
    case neg
    show ?thesis unfolding exp_eq evaluateExp_special(4) [OF neg(1,2,5)] using neg by simp
  next
    case big
    show ?thesis unfolding exp_eq evaluateExp_special(5) [OF big] using big by simp
  next
    case gen
    have "\<not> \<bar>numerator e\<bar> > uint32_max" using gen(6) by simp
    then show ?thesis unfolding exp_eq evaluateExp_general [OF gen] using gen(1-5)
      by (simp only: if_False if_True not_not refl simp_thms)
  qed
qed


theorem exponentiation_rule_witness:
  "evaluateBinaryOperator (\<lambda>m l e. True) Exp (2 / 3) (- 2) = Inr (Some (9 / 4))
   \<and> evaluateBinaryOperator (\<lambda>m l e. True) Exp (2 / 3) (1 / 2) = Inr None
   \<and> evaluateBinaryOperator (\<lambda>m l e. True) Exp (- 1) 3 = Inr (Some (- 1))
   \<and> evaluateBinaryOperator (\<lambda>m l e. True) Exp 2 4097 = Inr None"
proof -
  have q: "quotient_of (2 / 3) = (2, 3)" "quotient_of (1 / 2) = (1, 2)"
    "quotient_of (- 2) = (- 2, 1)" "quotient_of 3 = (3, 1)" "quotient_of 4097 = (4097, 1)"
    "quotient_of 2 = (2, 1)"
    by code_simp+
  have m: "msb 2 = 1" "msb 3 = 1" by (simp_all add: msb_unique [of 1])
  have f: "(9 / 4 :: rat) = Fract 9 4" by (simp add: Fract_of_int_quotient)
  show ?thesis
    using exponentiation_rule [of "\<lambda>m l e. True" "2 / 3" "- 2"]
      exponentiation_rule [of "\<lambda>m l e. True" "2 / 3" "1 / 2"]
      exponentiation_rule [of "\<lambda>m l e. True" "- 1" 3]
      exponentiation_rule [of "\<lambda>m l e. True" 2 4097]
    by (simp add: numerator_def denominator_def q fitsPrecisionExp_positive m bitsMax_def
        uint32_max_def f)
qed

section \<open>Shifts\<close>

text \<open>
  Claim C8. For every integral rational \<open>x \<ge> 0\<close> and every integral shift amount
  \<open>s\<close> between 0 and the largest 32-bit unsigned number, if
  \<open>evaluateBinaryOperator(SHL, x, s)\<close> yields a value \<open>y\<close> (the precision guard, whatever
  it is, did not reject the shift), then \<open>evaluateBinaryOperator(SAR, y, s)\<close> yields
  \<open>x\<close> again.
\<close>

theorem shift_left_then_right_recovers:
  assumes "denominator x = 1" and "0 \<le> x"
    and "denominator s = 1" and "0 \<le> s" and "s \<le> of_int uint32_max"
    and "evaluateBinaryOperator g SHL x s = Inr (Some y)"
  shows "evaluateBinaryOperator g SAR y s = Inr (Some x)"
proof -
  define n k where "n = numerator x" and "k = numerator s"
  have x: "x = of_int n" and s: "s = of_int k"
    using assms(1,3) by (simp_all add: n_def k_def integral_rational)
  have n: "0 \<le> n" and k: "0 \<le> k" "k \<le> uint32_max"
    using assms(2,4,5) by (simp_all add: x s)
  note w = uint32_of_bigint [OF k]
  show ?thesis
  proof (cases "n = 0")
    case True
    with assms(6) have "y = 0"
      by (simp add: evaluateBinaryOperator_def evaluateSHL_def x s numerator_of_int
          denominator_of_int numerator_0 split: if_splits)
    with True show ?thesis using k
      by (simp add: evaluateBinaryOperator_def evaluateSAR_def x s numerator_of_int
          denominator_of_int numerator_0)
  next
    case False
    with n have pos: "0 < n" by simp
    from assms(6) False have y: "y = of_int (n * 2 ^ nat k)"
      by (simp add: evaluateBinaryOperator_def evaluateSHL_def x s numerator_of_int
          denominator_of_int Let_def w split: if_splits)
    have "evaluateBinaryOperator g SAR y s = Inr (evaluateSAR False y s)"
      by (simp add: evaluateBinaryOperator_def y s denominator_of_int del: of_int_mult of_int_power)
    then show ?thesis
      by (simp only: y s x evaluateSAR_undoes_shift [OF pos k])
  qed
qed


theorem shift_left_then_right_witness:
  "evaluateBinaryOperator (\<lambda>m l e. True) SHL 5 3 = Inr (Some 40)
   \<and> evaluateBinaryOperator (\<lambda>m l e. True) SAR 40 3 = Inr (Some 5)"
proof -
  have q: "numerator 5 = 5" "denominator 5 = 1" "numerator 3 = 3" "denominator 3 = 1"
    by (simp_all add: numerator_def denominator_def)
  have shl: "evaluateBinaryOperator (\<lambda>m l e. True) SHL 5 3 = Inr (Some 40)"
    by (simp add: evaluateBinaryOperator_def evaluateSHL_def fitsPrecisionBase2_def q
        uint32_max_def)
  from shift_left_then_right_recovers [OF q(2) _ q(4) _ _ shl]
  have "evaluateBinaryOperator (\<lambda>m l e. True) SAR 40 3 = Inr (Some 5)"
    by (simp add: uint32_max_def)
  with shl show ?thesis by simp
qed

section \<open>The replay of the occurrences of a node\<close>

text \<open>
  Claim C2. Within one node, \<open>checkUninitializedAccess\<close> replays the occurrences in
  program order, starting from the node's unassigned-at-entry set: a declaration inserts
  its variable, an assignment removes it, and an access, return or inline-assembly
  occurrence leaves the set unchanged; such an occurrence (inline assembly like an
  access) is flagged exactly when its variable is in the set reached before it. The set
  after the last occurrence becomes the node's unassigned-at-exit set; the flags are
  added to those the node already has.
\<close>

theorem node_replay:
  "traverseNode cfg n nodeInfos =
     nodeInfos(n \<mapsto> (infoAt nodeInfos n)\<lparr>
       unassignedVariablesAtExit :=
         unassignedAfter (variableOccurrences (cfg n)) (unassignedVariablesAtEntry (infoAt nodeInfos n)),
       uninitializedVariableAccesses :=
         uninitializedVariableAccesses (infoAt nodeInfos n)
         \<union> {(n, j) | j. j < length (variableOccurrences (cfg n))
               \<and> kind (variableOccurrences (cfg n) ! j) \<in> {Access, Return, InlineAssembly}
               \<and> varDeclaration (variableOccurrences (cfg n) ! j)
                   \<in> unassignedAfter (take j (variableOccurrences (cfg n)))
                       (unassignedVariablesAtEntry (infoAt nodeInfos n))}\<rparr>)
   \<and> unassignedAfter [] U = U
   \<and> unassignedAfter (occs @ [occ]) U =
       (case kind occ of
          Declaration \<Rightarrow> insert (varDeclaration occ) (unassignedAfter occs U)
        | Assignment \<Rightarrow> unassignedAfter occs U - {varDeclaration occ}
        | Access \<Rightarrow> unassignedAfter occs U
        | Return \<Rightarrow> unassignedAfter occs U
        | InlineAssembly \<Rightarrow> unassignedAfter occs U)"
  by (simp add: traverseNode_def Let_def replayOccurrences_spec isUse_def unassignedAfter_snoc)

theorem node_replay_witness:
  "unassignedVariablesAtExit (infoAt (traverseNode (\<lambda>n. node0) 0 Map.empty) 0) = {}
   \<and> uninitializedVariableAccesses (infoAt (traverseNode (\<lambda>n. node0) 0 Map.empty) 0) = {(0, 1)}"
proof -
  have "unassignedVariablesAtExit (infoAt (traverseNode (\<lambda>n. node0) 0 Map.empty) 0) = {}"
    using node_replay [of "\<lambda>n. node0" 0 Map.empty]
    by (simp add: infoAt_def emptyNodeInfo_def node0_def unassignedStep_def)
  moreover have "uninitializedVariableAccesses (infoAt (traverseNode (\<lambda>n. node0) 0 Map.empty) 0) = {(0, 1)}"
    by (simp add: traverseNode_def infoAt_def emptyNodeInfo_def node0_def visitOccurrence_def)
  ultimately show ?thesis by simp
qed

section \<open>The diagnostics of an uninitialized access\<close>

text \<open>
  Claim C1, as the sources have it. When finitely many nodes are reachable from the
  entry, the dataflow ends and \<open>checkUninitializedAccess\<close> returns: it has processed
  every flagged access in the \<open>NodeInfo\<close> of the exit node once, in the order of the
  sort key. For each of them, if the variable's type is storage- or calldata-located, a
  type error is added whose message says "returned" for a \<open>Return\<close> occurrence and
  "accessed" otherwise; it is reported at the occurrence with a secondary note pointing
  at the declaration when the occurrence has a source location, and at the declaration
  itself, without a note, when it has none. Otherwise, if the body is not empty and the
  variable has no name, a warning is added at the declaration unless the declaration
  was warned for before. In all remaining cases nothing is reported. A declaration is
  warned for at most once in the life of the analyzer: both checks keep the
  declarations warned for so far distinct and in step with the warnings among the
  diagnostics, and so does a whole run over analysable flows from a new analyzer.
\<close>

theorem uninitialized_access_diagnostics:
  "(finite (reachableNodes cfg entry) \<longrightarrow>
      (\<exists>nodeInfos.
         traverse cfg entry = Some nodeInfos
         \<and> checkUninitializedAccess key cfg entry exit emptyBody contractName this =
             Some (foldl (\<lambda>s r. reportUninitializedAccess emptyBody contractName (occurrenceAt cfg r) s)
                    this
                    (uninitializedAccessesOrdered key cfg
                      (uninitializedVariableAccesses (infoAt nodeInfos exit))))
         \<and> set (uninitializedAccessesOrdered key cfg
                  (uninitializedVariableAccesses (infoAt nodeInfos exit)))
             = uninitializedVariableAccesses (infoAt nodeInfos exit)
         \<and> distinct (uninitializedAccessesOrdered key cfg
                  (uninitializedVariableAccesses (infoAt nodeInfos exit)))
         \<and> sorted (map (\<lambda>r. key (occurrenceAt cfg r))
               (uninitializedAccessesOrdered key cfg
                  (uninitializedVariableAccesses (infoAt nodeInfos exit))))))
   \<and> reportUninitializedAccess emptyBody contractName occ this =
       (if storedInStorage (varDeclaration occ) \<or> storedInCallData (varDeclaration occ)
        then this\<lparr>m_errors := m_errors this @ [storagePointerError occ]\<rparr>
        else if \<not> emptyBody \<and> name (varDeclaration occ) = []
                \<and> varDeclaration occ \<notin> m_unassignedReturnVarsAlreadyWarnedFor this
        then this\<lparr>m_errors := m_errors this @ [unnamedReturnWarning contractName occ],
                   m_unassignedReturnVarsAlreadyWarnedFor :=
                     insert (varDeclaration occ) (m_unassignedReturnVarsAlreadyWarnedFor this)\<rparr>
        else this)
   \<and> (warnedOnceEach ds this
        \<and> checkUninitializedAccess key cfg entry exit emptyBody contractName this = Some this'
        \<longrightarrow> (\<exists>ds'. warnedOnceEach (ds @ ds') this'))
   \<and> (warnedOnceEach ds this
        \<and> checkUnreachable cfg entry exit revert transactionReturn this = Some this'
        \<longrightarrow> warnedOnceEach ds this')
   \<and> ((\<forall>(function, contract, flow)\<in>set allFunctionFlows. analysable cfg flow) \<longrightarrow>
        (\<exists>ok final warned. run key cfg allFunctionFlows newAnalyzer = Some (ok, final)
           \<and> warnedOnceEach warned final))"
proof (intro conjI impI)
  assume fin: "finite (reachableNodes cfg entry)"
  from traverse_terminates [OF fin] obtain nodeInfos where t: "traverse cfg entry = Some nodeInfos" ..
  from flagsOriginate_traverse [OF t]
  have finA: "finite (uninitializedVariableAccesses (infoAt nodeInfos exit))"
    by (simp add: flagsOriginate_def)
  have "checkUninitializedAccess key cfg entry exit emptyBody contractName this =
      Some (foldl (\<lambda>s r. reportUninitializedAccess emptyBody contractName (occurrenceAt cfg r) s)
             this
             (uninitializedAccessesOrdered key cfg
               (uninitializedVariableAccesses (infoAt nodeInfos exit))))"
    by (simp add: checkUninitializedAccess_def t reportUninitializedAccesses_def
        uninitializedAccessesOrdered_def)
  with t ordered_accesses [OF finA, of key cfg]
  show "\<exists>nodeInfos.
         traverse cfg entry = Some nodeInfos
         \<and> checkUninitializedAccess key cfg entry exit emptyBody contractName this =
             Some (foldl (\<lambda>s r. reportUninitializedAccess emptyBody contractName (occurrenceAt cfg r) s)
                    this
                    (uninitializedAccessesOrdered key cfg
                      (uninitializedVariableAccesses (infoAt nodeInfos exit))))
         \<and> set (uninitializedAccessesOrdered key cfg
                  (uninitializedVariableAccesses (infoAt nodeInfos exit)))
             = uninitializedVariableAccesses (infoAt nodeInfos exit)
         \<and> distinct (uninitializedAccessesOrdered key cfg
                  (uninitializedVariableAccesses (infoAt nodeInfos exit)))
         \<and> sorted (map (\<lambda>r. key (occurrenceAt cfg r))
               (uninitializedAccessesOrdered key cfg
                  (uninitializedVariableAccesses (infoAt nodeInfos exit))))"
    by blast
next
  show "reportUninitializedAccess emptyBody contractName occ this =
       (if storedInStorage (varDeclaration occ) \<or> storedInCallData (varDeclaration occ)
        then this\<lparr>m_errors := m_errors this @ [storagePointerError occ]\<rparr>
        else if \<not> emptyBody \<and> name (varDeclaration occ) = []
                \<and> varDeclaration occ \<notin> m_unassignedReturnVarsAlreadyWarnedFor this
        then this\<lparr>m_errors := m_errors this @ [unnamedReturnWarning contractName occ],
                   m_unassignedReturnVarsAlreadyWarnedFor :=
                     insert (varDeclaration occ) (m_unassignedReturnVarsAlreadyWarnedFor this)\<rparr>
        else this)"
    by (rule reportUninitializedAccess_cases)
next
  assume "warnedOnceEach ds this
        \<and> checkUninitializedAccess key cfg entry exit emptyBody contractName this = Some this'"
  then show "\<exists>ds'. warnedOnceEach (ds @ ds') this'"
    using warnedOnceEach_checkUninitializedAccess by blast
next
  assume "warnedOnceEach ds this
        \<and> checkUnreachable cfg entry exit revert transactionReturn this = Some this'"
  then show "warnedOnceEach ds this'"
    using warnedOnceEach_checkUnreachable by blast
next
  assume "\<forall>(function, contract, flow)\<in>set allFunctionFlows. analysable cfg flow"
  from analyzeAll_terminates [OF this, of key newAnalyzer]
  obtain final where a: "analyzeAll key cfg allFunctionFlows newAnalyzer = Some final" ..
  have "warnedOnceEach [] newAnalyzer" by (simp add: warnedOnceEach_def newAnalyzer_def)
  from warnedOnceEach_analyzeAll [OF a this] obtain warned where "warnedOnceEach warned final"
    by auto
  with a show "\<exists>ok final warned. run key cfg allFunctionFlows newAnalyzer = Some (ok, final)
           \<and> warnedOnceEach warned final"
    by (auto simp add: run_def)
qed

text \<open>
  The example: the dataflow flags the read of the storage pointer in node 0 and both
  returns of the exit node; the check reports the read with a note, the return without
  one, and the unnamed return variable once. In the run over all three functions the
  errors are repeated for the inherited function, its return variable is not warned for
  again, and the return variable of the other function is warned for at the same site.
\<close>

theorem uninitialized_access_diagnostics_witness:
  "(\<exists>nodeInfos. traverse returnsFlow 0 = Some nodeInfos
      \<and> uninitializedVariableAccesses (infoAt nodeInfos 3) = {(0, 2), (3, 0), (3, 1)}
      \<and> uninitializedAccessesOrdered (\<lambda>occ. decl_id (varDeclaration occ)) returnsFlow
           (uninitializedVariableAccesses (infoAt nodeInfos 3)) = [(0, 2), (3, 0), (3, 1)])
   \<and> checkUninitializedAccess (\<lambda>occ. decl_id (varDeclaration occ)) returnsFlow 0 3 False None newAnalyzer =
     Some returnsReport
   \<and> (\<exists>warned. warnedOnceEach warned returnsReport)
   \<and> warnedOnceEach [] newAnalyzer
   \<and> (\<exists>final warned.
        run (\<lambda>occ. decl_id (varDeclaration occ)) returnsFlow returnsFunctions newAnalyzer
          = Some (False, final)
        \<and> map (\<lambda>d. (errorId d, diag_location d)) (m_errors final)
          = [(3464, (30, 31)), (3464, (10, 20)), (6321, (60, 64)),
             (3464, (30, 31)), (3464, (10, 20)), (6321, (60, 64))]
        \<and> m_unassignedReturnVarsAlreadyWarnedFor final = {y0, y1}
        \<and> warnedOnceEach warned final)"
proof (intro conjI)
  let ?key = "\<lambda>occ. decl_id (varDeclaration occ)"
  note inst = uninitialized_access_diagnostics [where key = ?key and cfg = returnsFlow
      and entry = 0 and exit = 3 and revert = 4 and transactionReturn = 5
      and emptyBody = False and contractName = None
      and allFunctionFlows = returnsFunctions]
  from returns_analysable have fin: "finite (reachableNodes returnsFlow 0)"
    by (simp add: returnsFunctions_def analysable_def)
  from inst [where this = newAnalyzer, THEN conjunct1, THEN mp, OF fin]
  obtain nodeInfos where t: "traverse returnsFlow 0 = Some nodeInfos" by blast
  from returns_flags
  have flags: "uninitializedVariableAccesses (infoAt nodeInfos 3) = {(0, 2), (3, 0), (3, 1)}"
    by (simp only: t option.map option.inject)
  from t flags returns_ordered
  show "\<exists>nodeInfos. traverse returnsFlow 0 = Some nodeInfos
      \<and> uninitializedVariableAccesses (infoAt nodeInfos 3) = {(0, 2), (3, 0), (3, 1)}
      \<and> uninitializedAccessesOrdered ?key returnsFlow
           (uninitializedVariableAccesses (infoAt nodeInfos 3)) = [(0, 2), (3, 0), (3, 1)]"
    by (intro exI [of _ nodeInfos] conjI) (simp_all only:)
  show run1: "checkUninitializedAccess ?key returnsFlow 0 3 False None newAnalyzer =
     Some returnsReport"
    by (rule returns_run)
  have new: "warnedOnceEach [] newAnalyzer" by (simp add: warnedOnceEach_def newAnalyzer_def)
  from inst [where this = newAnalyzer and ds = "[]",
      THEN conjunct2, THEN conjunct2, THEN conjunct1, THEN mp, OF conjI, OF new run1]
  obtain warned where "warnedOnceEach ([] @ warned) returnsReport" ..
  then show "\<exists>warned. warnedOnceEach warned returnsReport" by (rule exI)
  from inst [where this = newAnalyzer and ds = "[]" and this' = newAnalyzer,
      THEN conjunct2, THEN conjunct2, THEN conjunct2, THEN conjunct1, THEN mp, OF conjI,
      OF new returns_unreachable]
  show "warnedOnceEach [] newAnalyzer" .
  from inst [THEN conjunct2, THEN conjunct2, THEN conjunct2, THEN conjunct2, THEN mp,
      OF returns_analysable]
  obtain ok final warned where
    r: "run ?key returnsFlow returnsFunctions newAnalyzer = Some (ok, final)"
    and w: "warnedOnceEach warned final" by blast
  from returns_lifetime have "\<not> ok
        \<and> map (\<lambda>d. (errorId d, diag_location d)) (m_errors final)
          = [(3464, (30, 31)), (3464, (10, 20)), (6321, (60, 64)),
             (3464, (30, 31)), (3464, (10, 20)), (6321, (60, 64))]
        \<and> m_unassignedReturnVarsAlreadyWarnedFor final = {y0, y1}"
    by (simp add: r)
  then have ok: "ok = False"
    and errors: "map (\<lambda>d. (errorId d, diag_location d)) (m_errors final)
          = [(3464, (30, 31)), (3464, (10, 20)), (6321, (60, 64)),
             (3464, (30, 31)), (3464, (10, 20)), (6321, (60, 64))]"
    and warnedFor: "m_unassignedReturnVarsAlreadyWarnedFor final = {y0, y1}"
    by simp_all
  from r ok have "run ?key returnsFlow returnsFunctions newAnalyzer = Some (False, final)"
    by (simp only:)
  with errors warnedFor w show "\<exists>final warned.
        run ?key returnsFlow returnsFunctions newAnalyzer = Some (False, final)
        \<and> map (\<lambda>d. (errorId d, diag_location d)) (m_errors final)
          = [(3464, (30, 31)), (3464, (10, 20)), (6321, (60, 64)),
             (3464, (30, 31)), (3464, (10, 20)), (6321, (60, 64))]
        \<and> m_unassignedReturnVarsAlreadyWarnedFor final = {y0, y1}
        \<and> warnedOnceEach warned final"
    by (intro exI conjI)
qed

text \<open>
  The claim as stated fails where the occurrence has no source location (the implicit
  return at the end of a function): the error carries no secondary note.
\<close>

theorem storage_error_without_note:
  "reportUninitializedAccess False None
     \<lparr>kind = Return, varDeclaration = x0, occurrence = None\<rparr> newAnalyzer =
   newAnalyzer\<lparr>m_errors :=
     [\<lparr>severity = TypeError, errorId = 3464, diag_location = (10, 20), secondary = [],
       message = ''This variable is of storage pointer type and can be returned without prior assignment, which would lead to undefined behaviour.''\<rparr>]\<rparr>"
  by (simp add: reportUninitializedAccess_def x0_def newAnalyzer_def typeError_def)

section \<open>Only flags that reach the exit node are reported\<close>

text \<open>
  Claim C10. When \<open>checkUninitializedAccess\<close> returns, what it has added to the
  diagnostics is the report of the flagged accesses in the \<open>NodeInfo\<close> of the exit
  node, at most one diagnostic for each of them; every such flag is a use in a node
  from which the exit node can be reached along successor edges (the flags travel by
  the union of \<open>propagateFrom\<close> along these edges only). So when no flagged use lies on
  a path to the exit node (it lies on paths to the revert or transaction-return node
  only), neither an error nor a warning is produced.
\<close>

theorem diagnostics_only_from_exit_node:
  assumes "checkUninitializedAccess key cfg entry exit emptyBody contractName this = Some this'"
  shows "\<exists>nodeInfos ds.
      traverse cfg entry = Some nodeInfos
      \<and> this' = reportUninitializedAccesses key cfg emptyBody contractName (infoAt nodeInfos exit) this
      \<and> m_errors this' = m_errors this @ ds
      \<and> length ds \<le> card (uninitializedVariableAccesses (infoAt nodeInfos exit))
      \<and> (\<forall>r\<in>uninitializedVariableAccesses (infoAt nodeInfos exit).
            (fst r, exit) \<in> (exitEdges cfg)\<^sup>*
            \<and> snd r < length (variableOccurrences (cfg (fst r)))
            \<and> isUse (kind (occurrenceAt cfg r)))
      \<and> ((\<forall>m. \<forall>r\<in>uninitializedVariableAccesses (infoAt nodeInfos m).
              (fst r, exit) \<notin> (exitEdges cfg)\<^sup>*) \<longrightarrow> this' = this)"
proof -
  from assms obtain nodeInfos where
    t: "traverse cfg entry = Some nodeInfos"
    and r: "this' = reportUninitializedAccesses key cfg emptyBody contractName (infoAt nodeInfos exit) this"
    by (auto simp add: checkUninitializedAccess_def split: option.splits)
  from flagsOriginate_traverse [OF t] have
    fin: "finite (uninitializedVariableAccesses (infoAt nodeInfos exit))"
    and orig: "\<forall>r\<in>uninitializedVariableAccesses (infoAt nodeInfos exit).
            (fst r, exit) \<in> (exitEdges cfg)\<^sup>*
            \<and> snd r < length (variableOccurrences (cfg (fst r)))
            \<and> isUse (kind (occurrenceAt cfg r))"
    by (simp_all add: flagsOriginate_def)
  from reportUninitializedAccesses_appends [OF fin, of key cfg emptyBody contractName this]
  obtain ds where ds: "m_errors this' = m_errors this @ ds"
    "length ds \<le> card (uninitializedVariableAccesses (infoAt nodeInfos exit))"
    unfolding r by blast
  have none: "this' = this"
    if "\<forall>m. \<forall>r\<in>uninitializedVariableAccesses (infoAt nodeInfos m). (fst r, exit) \<notin> (exitEdges cfg)\<^sup>*"
  proof -
    from that orig have "uninitializedVariableAccesses (infoAt nodeInfos exit) = {}" by blast
    then show ?thesis by (simp add: r reportUninitializedAccesses_def)
  qed
  from t r ds orig none show ?thesis by blast
qed

theorem diagnostics_only_from_exit_node_witness:
  "checkUninitializedAccess (\<lambda>occ. decl_id (varDeclaration occ)) exampleFlow 0 3 False None newAnalyzer
     = Some newAnalyzer
   \<and> (\<exists>nodeInfos.
        traverse exampleFlow 0 = Some nodeInfos
        \<and> (1, 0) \<in> uninitializedVariableAccesses (infoAt nodeInfos 4)
        \<and> uninitializedVariableAccesses (infoAt nodeInfos 3) = {})"
proof -
  obtain nodeInfos ds where
    t: "traverse exampleFlow 0 = Some nodeInfos"
    and d: "m_errors newAnalyzer = m_errors newAnalyzer @ ds"
      "length ds \<le> card (uninitializedVariableAccesses (infoAt nodeInfos 3))"
    using diagnostics_only_from_exit_node [OF example_run] by blast
  have "(1, 0) \<in> uninitializedVariableAccesses (infoAt (the (traverse exampleFlow 0)) 4)"
    by code_simp
  moreover have "uninitializedVariableAccesses (infoAt (the (traverse exampleFlow 0)) 3) = {}"
    by code_simp
  ultimately show ?thesis using t example_run by simp
qed

section \<open>Unreachable code\<close>

text \<open>
  Claim C3, as the sources have it. On a graph where finitely many nodes are reachable,
  \<open>checkUnreachable\<close> returns, and it reports every node that has a valid source
  location, is found from the exit, revert or transaction-return node along predecessor
  edges, and cannot be reached from the entry node along successor edges: the recorded
  locations are sorted by position, a location that starts at or before the end of the
  current merged range is coalesced into that range, one warning "Unreachable code." is
  given per merged range, and a merged range that is in the already-warned set is not
  warned for again, so that running the check again over the same function adds
  nothing. A node that is not found by the backward search is not reported, see
  \<open>unreachable_loop_not_reported\<close>.
\<close>

theorem unreachable_code_warnings:
  assumes "finite ((exitEdges cfg)\<^sup>* `` {entry})"
    and "finite ((entryEdges cfg)\<^sup>* `` {exit, revert, transactionReturn})"
  shows "checkUnreachable cfg entry exit revert transactionReturn this =
       Some (foldl (\<lambda>s m. warnUnreachable m s) this
         (mergeRanges (sorted_list_of_set
            (unreachableLocations cfg entry exit revert transactionReturn))))
   \<and> set (sorted_list_of_set (unreachableLocations cfg entry exit revert transactionReturn))
       = unreachableLocations cfg entry exit revert transactionReturn
   \<and> sorted (sorted_list_of_set (unreachableLocations cfg entry exit revert transactionReturn))
   \<and> distinct (sorted_list_of_set (unreachableLocations cfg entry exit revert transactionReturn))
   \<and> warnUnreachable m s =
       (if m \<in> m_unreachableLocationsAlreadyWarnedFor s then s
        else s\<lparr>m_errors := m_errors s @
                  [\<lparr>severity = Warning, errorId = 5740, diag_location = m, secondary = [],
                    message = ''Unreachable code.''\<rparr>],
                m_unreachableLocationsAlreadyWarnedFor :=
                  insert m (m_unreachableLocationsAlreadyWarnedFor s)\<rparr>)
   \<and> checkUnreachable cfg entry exit revert transactionReturn
         (foldl (\<lambda>s m. warnUnreachable m s) this
           (mergeRanges (sorted_list_of_set
              (unreachableLocations cfg entry exit revert transactionReturn))))
       = Some (foldl (\<lambda>s m. warnUnreachable m s) this
           (mergeRanges (sorted_list_of_set
              (unreachableLocations cfg entry exit revert transactionReturn))))"
proof -
  let ?U = "unreachableLocations cfg entry exit revert transactionReturn"
  note result = checkUnreachable_result [OF assms]
  have first: "checkUnreachable cfg entry exit revert transactionReturn this =
       Some (foldl (\<lambda>s m. warnUnreachable m s) this (mergeRanges (sorted_list_of_set ?U)))"
    by (simp add: result reportUnreachable_eq)
  have again: "checkUnreachable cfg entry exit revert transactionReturn
         (foldl (\<lambda>s m. warnUnreachable m s) this (mergeRanges (sorted_list_of_set ?U)))
       = Some (foldl (\<lambda>s m. warnUnreachable m s) this (mergeRanges (sorted_list_of_set ?U)))"
    using reportUnreachable_again [of ?U this]
    by (simp add: result reportUnreachable_eq)
  from finite_unreachableLocations [OF assms(2)] have "finite ?U" .
  then have "set (sorted_list_of_set ?U) = ?U" "sorted (sorted_list_of_set ?U)"
    "distinct (sorted_list_of_set ?U)" by simp_all
  with first again warnUnreachable_cases [of m s] show ?thesis by simp
qed

theorem unreachable_code_warnings_witness:
  "checkUnreachable exampleFlow 0 3 4 5 newAnalyzer =
     Some (newAnalyzer\<lparr>m_errors :=
       [\<lparr>severity = Warning, errorId = 5740, diag_location = (40, 60), secondary = [],
         message = ''Unreachable code.''\<rparr>],
       m_unreachableLocationsAlreadyWarnedFor := {(40, 60)}\<rparr>)
   \<and> checkUnreachable exampleFlow 0 3 4 5
       (newAnalyzer\<lparr>m_errors :=
         [\<lparr>severity = Warning, errorId = 5740, diag_location = (40, 60), secondary = [],
           message = ''Unreachable code.''\<rparr>],
         m_unreachableLocationsAlreadyWarnedFor := {(40, 60)}\<rparr>)
     = Some (newAnalyzer\<lparr>m_errors :=
       [\<lparr>severity = Warning, errorId = 5740, diag_location = (40, 60), secondary = [],
         message = ''Unreachable code.''\<rparr>],
       m_unreachableLocationsAlreadyWarnedFor := {(40, 60)}\<rparr>)"
proof -
  have fin1: "finite ((exitEdges exampleFlow)\<^sup>* `` {0})"
    by (rule finite_subset [OF example_forward]) simp
  have fin2: "finite ((entryEdges exampleFlow)\<^sup>* `` {3, 4, 5})"
    by (rule finite_subset [OF example_backward]) simp
  let ?F = "foldl (\<lambda>s m. warnUnreachable m s) newAnalyzer
      (mergeRanges (sorted_list_of_set (unreachableLocations exampleFlow 0 3 4 5)))"
  from unreachable_code_warnings [OF fin1 fin2, of newAnalyzer]
  have a: "checkUnreachable exampleFlow 0 3 4 5 newAnalyzer = Some ?F"
    and b: "checkUnreachable exampleFlow 0 3 4 5 ?F = Some ?F" by blast+
  from a have "?F = newAnalyzer\<lparr>m_errors :=
       [\<lparr>severity = Warning, errorId = 5740, diag_location = (40, 60), secondary = [],
         message = ''Unreachable code.''\<rparr>],
       m_unreachableLocationsAlreadyWarnedFor := {(40, 60)}\<rparr>"
    by (simp only: example_unreachable option.inject)
  with b example_unreachable show ?thesis by (simp only: simp_thms)
qed

text \<open>
  The claim as stated fails: node 8 of the example has a valid location and cannot be
  reached from the entry, but no path leads from it to the exit, revert or
  transaction-return node, so the backward search never visits it. The only warning
  is the one for nodes 6 and 7.
\<close>

theorem unreachable_loop_not_reported:
  "checkUnreachable exampleFlow 0 3 4 5 newAnalyzer =
     Some (newAnalyzer\<lparr>m_errors :=
       [\<lparr>severity = Warning, errorId = 5740, diag_location = (40, 60), secondary = [],
         message = ''Unreachable code.''\<rparr>],
       m_unreachableLocationsAlreadyWarnedFor := {(40, 60)}\<rparr>)
   \<and> location (exampleFlow 8) = Some (70, 80)
   \<and> (0, 8) \<notin> (exitEdges exampleFlow)\<^sup>*
   \<and> (6, 8) \<in> exitEdges exampleFlow"
proof -
  have "(0, 8) \<notin> (exitEdges exampleFlow)\<^sup>*" using example_forward by auto
  with example_unreachable show ?thesis by (simp add: exampleFlow_def exitEdges_def)
qed

section \<open>The depth counter\<close>

text \<open>
  Claim C6. Evaluating a constant variable declaration that is not yet evaluated and
  has an initial value and a type first increments the depth counter: at a counter of
  32 or more the incremented counter exceeds 32, the fatal type error 5210 (cyclic
  constant definition or maximum recursion depth exhausted) is reported and the
  evaluation is abandoned without touching the initial value; below 32 the initial
  value is evaluated with the incremented counter, and after the result is converted
  and cached the counter is decremented. A chain of constant-variable initializers,
  cyclic or not, that is long enough to drive the counter past 32 ends in exactly this
  fatal error, reported at the declaration at which the counter reaches 33. Every
  evaluation of a declaration or an expression that starts with a counter of at most
  32 ends within a bounded number of calls: it returns a value and leaves the counter
  as it found it, or it leaves by an exception with the counter at most 32, or with
  the counter at 33 and the fatal error 5210 as the last report.
\<close>

theorem depth_counter_cuts_recursion:
  "(isUnevaluatedConstant env s d \<and> vd_value (declarationAt env d) = Some initialValue
      \<and> vd_type (declarationAt env d) = Some t \<longrightarrow>
    evaluateDeclaration (Suc n) env d s =
     (if 32 \<le> m_depth s then
        Some (Inl FatalError, s\<lparr>m_depth := m_depth s + 1,
          m_errorReporter := m_errorReporter s @ [cyclicDefinition env d]\<rparr>)
      else
        thenDo (evaluateExpression n env initialValue (s\<lparr>m_depth := m_depth s + 1\<rparr>))
          (\<lambda>v s2. returns (convertTypedValue v t)
             ((cache d (convertTypedValue v t) s2)\<lparr>m_depth := m_depth s2 - 1\<rparr>))))
   \<and> (referenceChain env s d ds \<and> m_depth s \<le> 32 \<and> 32 \<le> m_depth s + length ds
        \<and> 4 * (32 - m_depth s) + 1 \<le> k \<longrightarrow>
      evaluateDeclaration k env d s =
        Some (Inl FatalError, s\<lparr>m_depth := 33,
          m_errorReporter := m_errorReporter s
            @ [cyclicDefinition env ((d # ds) ! (32 - m_depth s))]\<rparr>))
   \<and> (m_depth s \<le> 32 \<and> fuelForDeclaration env (32 - m_depth s) d \<le> k \<longrightarrow>
       (\<exists>x s'. evaluateDeclaration k env d s = Some (x, s') \<and>
          (case x of
             Inr v \<Rightarrow> m_depth s' = m_depth s
           | Inl f \<Rightarrow> m_depth s' \<le> 32
               \<or> (m_depth s' = 33 \<and> f = FatalError \<and> cyclicReported s'))))
   \<and> (m_depth s \<le> 32 \<and> fuelFor env (32 - m_depth s) e \<le> k \<longrightarrow>
       (\<exists>x s'. evaluateExpression k env e s = Some (x, s') \<and>
          (case x of
             Inr v \<Rightarrow> m_depth s' = m_depth s
           | Inl f \<Rightarrow> m_depth s' \<le> 32
               \<or> (m_depth s' = 33 \<and> f = FatalError \<and> cyclicReported s'))))"
proof (intro conjI impI)
  assume "isUnevaluatedConstant env s d \<and> vd_value (declarationAt env d) = Some initialValue
      \<and> vd_type (declarationAt env d) = Some t"
  then show "evaluateDeclaration (Suc n) env d s =
     (if 32 \<le> m_depth s then
        Some (Inl FatalError, s\<lparr>m_depth := m_depth s + 1,
          m_errorReporter := m_errorReporter s @ [cyclicDefinition env d]\<rparr>)
      else
        thenDo (evaluateExpression n env initialValue (s\<lparr>m_depth := m_depth s + 1\<rparr>))
          (\<lambda>v s2. returns (convertTypedValue v t)
             ((cache d (convertTypedValue v t) s2)\<lparr>m_depth := m_depth s2 - 1\<rparr>)))"
    by (intro evaluateDeclaration_step) simp_all
next
  assume "referenceChain env s d ds \<and> m_depth s \<le> 32 \<and> 32 \<le> m_depth s + length ds
        \<and> 4 * (32 - m_depth s) + 1 \<le> k"
  then show "evaluateDeclaration k env d s =
        Some (Inl FatalError, s\<lparr>m_depth := 33,
          m_errorReporter := m_errorReporter s
            @ [cyclicDefinition env ((d # ds) ! (32 - m_depth s))]\<rparr>)"
    by (intro referenceChain_fails) simp_all
next
  assume a: "m_depth s \<le> 32 \<and> fuelForDeclaration env (32 - m_depth s) d \<le> k"
  then have "finishes (evaluateDeclaration k env d s) s" by (intro declaration_finishes) simp
  with a show "\<exists>x s'. evaluateDeclaration k env d s = Some (x, s') \<and>
          (case x of
             Inr v \<Rightarrow> m_depth s' = m_depth s
           | Inl f \<Rightarrow> m_depth s' \<le> 32
               \<or> (m_depth s' = 33 \<and> f = FatalError \<and> cyclicReported s'))"
    by (intro finishes_result) simp_all
next
  assume a: "m_depth s \<le> 32 \<and> fuelFor env (32 - m_depth s) e \<le> k"
  then have "finishes (evaluateExpression k env e s) s"
    using evaluation_finishes [of s "32 - m_depth s" env e k] by simp
  with a show "\<exists>x s'. evaluateExpression k env e s = Some (x, s') \<and>
          (case x of
             Inr v \<Rightarrow> m_depth s' = m_depth s
           | Inl f \<Rightarrow> m_depth s' \<le> 32
               \<or> (m_depth s' = 33 \<and> f = FatalError \<and> cyclicReported s'))"
    by (intro finishes_result) simp_all
qed

text \<open>
  The cyclic program \<open>const a = b; const b = a;\<close> and the chain of the constants 8 to
  40 both end in the fatal error, 33 declarations deep; the constant 39 evaluates to 5
  and leaves the counter at 0.
\<close>

theorem depth_counter_cuts_recursion_witness:
  "evaluateDeclaration 129 cyclicConstants 0 newEvaluator =
     Some (Inl FatalError, newEvaluator\<lparr>m_depth := 33, m_errorReporter :=
       [\<lparr>severity = FatalTypeError, errorId = 5210, diag_location = (0, 20), secondary = [],
         message = ''Cyclic constant definition (or maximum recursion depth exhausted).''\<rparr>]\<rparr>)
   \<and> evaluateDeclaration 129 deepConstants 8 newEvaluator =
     Some (Inl FatalError, newEvaluator\<lparr>m_depth := 33, m_errorReporter :=
       [\<lparr>severity = FatalTypeError, errorId = 5210, diag_location = (400, 409), secondary = [],
         message = ''Cyclic constant definition (or maximum recursion depth exhausted).''\<rparr>]\<rparr>)
   \<and> (\<exists>s'. evaluateDeclaration 8 deepConstants 39 newEvaluator =
         Some (Inr (Some \<lparr>tr_type = IntegerType 0 255, tr_value = 5\<rparr>), s')
       \<and> m_depth s' = 0)"
proof (intro conjI)
  have depth: "m_depth newEvaluator = 0" "m_errorReporter newEvaluator = []"
    by (simp_all add: newEvaluator_def)
  have len: "length (concat (replicate 16 [1, 0 :: nat])) = 32" by code_simp
  have "referenceChain cyclicConstants newEvaluator 0 (concat (replicate 16 [1, 0]))
      \<and> m_depth newEvaluator \<le> 32
      \<and> 32 \<le> m_depth newEvaluator + length (concat (replicate 16 [1, 0 :: nat]))
      \<and> 4 * (32 - m_depth newEvaluator) + 1 \<le> 129"
    using cyclic_chain by (simp only: depth len) simp
  from depth_counter_cuts_recursion [where env = cyclicConstants and s = newEvaluator
      and d = 0 and ds = "concat (replicate 16 [1, 0])" and k = 129,
      THEN conjunct2, THEN conjunct1, THEN mp, OF this]
  have "evaluateDeclaration 129 cyclicConstants 0 newEvaluator =
     Some (Inl FatalError, newEvaluator\<lparr>m_depth := 33, m_errorReporter :=
       [cyclicDefinition cyclicConstants 0]\<rparr>)"
    by (simp only: depth diff_zero append_Nil conjunct2 [OF cyclic_chain])
  moreover have "cyclicDefinition cyclicConstants 0 =
      \<lparr>severity = FatalTypeError, errorId = 5210, diag_location = (0, 20), secondary = [],
         message = ''Cyclic constant definition (or maximum recursion depth exhausted).''\<rparr>"
    by (simp add: cyclicDefinition_def cyclicConstants_def)
  ultimately show "evaluateDeclaration 129 cyclicConstants 0 newEvaluator =
     Some (Inl FatalError, newEvaluator\<lparr>m_depth := 33, m_errorReporter :=
       [\<lparr>severity = FatalTypeError, errorId = 5210, diag_location = (0, 20), secondary = [],
         message = ''Cyclic constant definition (or maximum recursion depth exhausted).''\<rparr>]\<rparr>)"
    by (simp only:)
  have "referenceChain deepConstants newEvaluator 8 [9..<41]
      \<and> m_depth newEvaluator \<le> 32
      \<and> 32 \<le> m_depth newEvaluator + length [9..<41 :: nat]
      \<and> 4 * (32 - m_depth newEvaluator) + 1 \<le> 129"
    using deep_chain by (simp only: depth) simp
  from depth_counter_cuts_recursion [where env = deepConstants and s = newEvaluator
      and d = 8 and ds = "[9..<41]" and k = 129,
      THEN conjunct2, THEN conjunct1, THEN mp, OF this]
  have "evaluateDeclaration 129 deepConstants 8 newEvaluator =
     Some (Inl FatalError, newEvaluator\<lparr>m_depth := 33, m_errorReporter :=
       [cyclicDefinition deepConstants 40]\<rparr>)"
    by (simp only: depth diff_zero append_Nil conjunct2 [OF deep_chain])
  moreover have "cyclicDefinition deepConstants 40 =
      \<lparr>severity = FatalTypeError, errorId = 5210, diag_location = (400, 409), secondary = [],
         message = ''Cyclic constant definition (or maximum recursion depth exhausted).''\<rparr>"
    by (simp add: cyclicDefinition_def deepConstants_def)
  ultimately show "evaluateDeclaration 129 deepConstants 8 newEvaluator =
     Some (Inl FatalError, newEvaluator\<lparr>m_depth := 33, m_errorReporter :=
       [\<lparr>severity = FatalTypeError, errorId = 5210, diag_location = (400, 409), secondary = [],
         message = ''Cyclic constant definition (or maximum recursion depth exhausted).''\<rparr>]\<rparr>)"
    by (simp only:)
  have "m_depth newEvaluator \<le> 32
      \<and> fuelForDeclaration deepConstants (32 - m_depth newEvaluator) 39 \<le> 8"
    using short_chain by (simp only: depth) simp
  from depth_counter_cuts_recursion [where env = deepConstants and s = newEvaluator
      and d = 39 and k = 8, THEN conjunct2, THEN conjunct2, THEN conjunct1, THEN mp, OF this]
  obtain x s' where run: "evaluateDeclaration 8 deepConstants 39 newEvaluator = Some (x, s')"
    and inv: "case x of Inr v \<Rightarrow> m_depth s' = m_depth newEvaluator
      | Inl f \<Rightarrow> m_depth s' \<le> 32 \<or> (m_depth s' = 33 \<and> f = FatalError \<and> cyclicReported s')"
    by blast
  from run short_chain have "x = Inr (Some \<lparr>tr_type = IntegerType 0 255, tr_value = 5\<rparr>)"
    by simp
  with run inv depth(1)
  show "\<exists>s'. evaluateDeclaration 8 deepConstants 39 newEvaluator =
         Some (Inr (Some \<lparr>tr_type = IntegerType 0 255, tr_value = 5\<rparr>), s')
       \<and> m_depth s' = 0"
    by simp
qed

end
